theory Spec2Isabelle
  imports Complex_Main "HOL-Library.Finite_Map"
begin

section \<open>Symbolic expressions\<close>

text \<open>
  The decomposition routines of \<^verbatim>\<open>common/symbolic/decompose.cc\<close> work on the
  symbolic expression tree of the library.  A variable is an identity with a numeric id;
  two variables are equal exactly when their ids are.
\<close>

datatype Variable = Variable (get_id: nat)

text \<open>
  The operator kinds that the factorizer treats as opaque non-polynomial nodes
  (\<^verbatim>\<open>VisitDivision\<close> ... \<^verbatim>\<open>VisitUninterpretedFunction\<close>), in the order of the
  library's kind tag.
\<close>

datatype Kind =
    Div | Log | Abs | Exp | Sqrt | Sin | Cos | Tan | Asin | Acos | Atan | Atan2
  | Sinh | Cosh | Tanh | Min | Max | Ceil | Floor | IfThenElse
  | UninterpretedFunction string

text \<open>
  An expression is a node tagged with its operator kind.  A sum is stored as
  \<open>c\<^sub>0 + \<Sum> c\<^sub>i * e\<^sub>i\<close> (\<^verbatim>\<open>get_constant_in_addition\<close>,
  \<^verbatim>\<open>get_expr_to_coeff_map_in_addition\<close>), a product as \<open>c * \<Prod> pow(b\<^sub>i, x\<^sub>i)\<close>
  (\<^verbatim>\<open>get_constant_in_multiplication\<close>,
  \<^verbatim>\<open>get_base_to_exponent_map_in_multiplication\<close>); the two maps are kept as lists in
  their iteration order.  Floating-point constants are modelled as real numbers.
\<close>

datatype Expression =
    EConstant real
  | EVar Variable
  | EAdd real "(Expression \<times> real) list"
  | EMul real "(Expression \<times> Expression) list"
  | EPow Expression Expression
  | ENonPoly Kind "Expression list"

text \<open>The variables of an expression, operand by operand, depth first, with repetitions.\<close>

fun occurrences :: "Expression \<Rightarrow> Variable list" where
  "occurrences (EConstant c) = []"
| "occurrences (EVar v) = [v]"
| "occurrences (EAdd c ts) = concat (map (\<lambda>p. occurrences (fst p)) ts)"
| "occurrences (EMul c fs) = concat (map (\<lambda>p. occurrences (fst p) @ occurrences (snd p)) fs)"
| "occurrences (EPow b x) = occurrences b @ occurrences x"
| "occurrences (ENonPoly k args) = concat (map occurrences args)"

text \<open>
  Modelled from the spec: \<^verbatim>\<open>Expression::GetVariables\<close> (the free-variable-set query of the
  expression type, which is not part of \<^verbatim>\<open>decompose.cc\<close>).  It returns a \<^verbatim>\<open>Variables\<close>
  object, an ordered set whose iteration runs through the variables by ascending id;
  the model is the list in that iteration order.
\<close>

type_synonym Variables = "Variable list"

definition GetVariables :: "Expression \<Rightarrow> Variables" where
  "GetVariables e = sort_key get_id (remdups (occurrences e))"

lemma set_GetVariables: "set (GetVariables e) = set (occurrences e)"
  by (simp add: GetVariables_def)

lemma inj_get_id: "inj get_id"
  by (rule injI) (simp add: Variable.expand)

lemma distinct_GetVariables: "distinct (GetVariables e)"
  by (simp add: GetVariables_def)

lemma distinct_ids_GetVariables: "distinct (map get_id (GetVariables e))"
  by (simp add: distinct_map distinct_GetVariables inj_on_def Variable.expand)

lemma sorted_GetVariables: "sorted (map get_id (GetVariables e))"
  by (simp add: GetVariables_def)

section \<open>Failures\<close>

text \<open>
  Every \<^verbatim>\<open>throw\<close> and every failed \<^verbatim>\<open>DRAKE_DEMAND\<close> / \<^verbatim>\<open>DRAKE_THROW_UNLESS\<close> of the
  source is a value of this type; a function that can fail returns \<open>error + result\<close>.
  The source raises \<^verbatim>\<open>runtime_error\<close> with a message that prints the offending
  expression; the constructors carry that expression.
\<close>

datatype error =
    PreconditionFailure
  | DemandFailure
  | OutOfRange
  | InputNotPolynomial Expression
  | InputNotAffine Expression
  | UnexpectedConstantTerm Expression Expression
  | NonConstantCoefficient Expression
  | DegreeExceeded "(Variable \<times> nat) list"
  | UnsupportedMixedPower Expression
  | NonSeparablePower Expression
  | NonSeparableNonlinearTerm Expression

section \<open>Variable indexer\<close>

text \<open>
  \<^verbatim>\<open>std::unordered_map<Variable::Id, int>\<close> is a finite map from ids to positions.
  \<^verbatim>\<open>try_emplace\<close> and \<^verbatim>\<open>emplace\<close> insert only when the key is absent.
\<close>

type_synonym index_map = "(nat, nat) fmap"

definition try_emplace :: "nat \<Rightarrow> nat \<Rightarrow> index_map \<Rightarrow> index_map \<times> bool" where
  "try_emplace k v m = (if k |\<in>| fmdom m then (m, False) else (fmupd k v m, True))"

definition emplace :: "nat \<Rightarrow> nat \<Rightarrow> index_map \<Rightarrow> index_map" where
  "emplace k v m = fst (try_emplace k v m)"

text \<open>The body of the loop of the \<^verbatim>\<open>std::vector\<close> overload (lines 192-198).\<close>

definition append_variable ::
  "Variable \<Rightarrow> Variable list \<times> index_map \<Rightarrow> Variable list \<times> index_map" where
  "append_variable var s =
     (case s of (vars, map_var_to_index) \<Rightarrow>
        (case try_emplace (get_id var) (length vars) map_var_to_index of
           (m', emplace_success) \<Rightarrow>
             if emplace_success then (vars @ [var], m') else (vars, m')))"

definition ExtractAndAppendVariablesFromExpression ::
  "Expression \<Rightarrow> Variable list \<Rightarrow> index_map \<Rightarrow> error + Variable list \<times> index_map" where
  "ExtractAndAppendVariablesFromExpression e vars map_var_to_index =
     (if fcard (fmdom map_var_to_index) \<noteq> length vars then Inl PreconditionFailure
      else Inr (fold append_variable (GetVariables e) (vars, map_var_to_index)))"

text \<open>The body of the loop of the \<^verbatim>\<open>VectorX<Variable>\<close> overload (lines 205-212).\<close>

definition append_if_absent ::
  "Variable \<Rightarrow> Variable list \<times> index_map \<Rightarrow> Variable list \<times> index_map" where
  "append_if_absent var s =
     (case s of (vars, map_var_to_index) \<Rightarrow>
        if get_id var |\<notin>| fmdom map_var_to_index
        then (vars @ [var], emplace (get_id var) (length vars) map_var_to_index)
        else (vars, map_var_to_index))"

definition ExtractAndAppendVariablesFromExpression_eigen ::
  "Expression \<Rightarrow> Variable list \<Rightarrow> index_map \<Rightarrow> error + Variable list \<times> index_map" where
  "ExtractAndAppendVariablesFromExpression_eigen e vars map_var_to_index =
     (if fcard (fmdom map_var_to_index) \<noteq> length vars then Inl DemandFailure
      else Inr (fold append_if_absent (GetVariables e) (vars, map_var_to_index)))"

text \<open>\<^verbatim>\<open>ExtractVariablesFromExpression\<close> for one expression (lines 215-227).\<close>

definition ExtractVariablesFromExpression :: "Expression \<Rightarrow> Variable list \<times> index_map" where
  "ExtractVariablesFromExpression e =
     (let var_set = GetVariables e;
          (vars, map_var_to_index, var_count) =
             fold (\<lambda>var (vars, m, var_count).
                     (vars @ [var], emplace (get_id var) var_count m, var_count + 1))
                  var_set ([], fmempty, 0)
      in (vars, map_var_to_index))"

text \<open>
  \<^verbatim>\<open>ExtractVariablesFromExpression\<close> for a vector of expressions (lines 229-245); the
  body of its inner loop is that of the \<^verbatim>\<open>VectorX<Variable>\<close> overload above.
\<close>

definition ExtractVariablesFromExpressions ::
  "Expression list \<Rightarrow> Variable list \<times> index_map" where
  "ExtractVariablesFromExpressions expressions =
     fold (\<lambda>e s. fold append_if_absent (GetVariables e) s) expressions ([], fmempty)"

text \<open>
  What the specification of the indexer says: the distinct variables in the order of
  their first occurrence in a depth-first scan.
\<close>

primrec first_occurrences :: "'a list \<Rightarrow> 'a list" where
  "first_occurrences [] = []"
| "first_occurrences (x # xs) = x # filter (\<lambda>y. y \<noteq> x) (first_occurrences xs)"

definition depth_first_variables :: "Expression \<Rightarrow> Variable list" where
  "depth_first_variables e = first_occurrences (occurrences e)"


subsection \<open>Appending to an index\<close>

lemma set_first_occurrences: "set (first_occurrences xs) = set xs"
  by (induction xs) auto

lemma distinct_first_occurrences: "distinct (first_occurrences xs)"
  by (induction xs) (auto simp: set_first_occurrences)

lemma first_occurrences_filter: "first_occurrences (filter P xs) = filter P (first_occurrences xs)"
proof (induction xs)
  case Nil
  then show ?case by simp
next
  case (Cons x xs)
  show ?case
  proof (cases "P x")
    case True
    have "filter (\<lambda>y. y \<noteq> x) (filter P (first_occurrences xs))
          = filter P (filter (\<lambda>y. y \<noteq> x) (first_occurrences xs))"
      by (simp add: conj_commute)
    with True Cons show ?thesis by simp
  next
    case False
    have "filter P (filter (\<lambda>y. y \<noteq> x) (first_occurrences xs)) = filter P (first_occurrences xs)"
      unfolding filter_filter using False by (intro filter_cong) auto
    with False Cons show ?thesis by simp
  qed
qed

lemma first_occurrences_distinct: "distinct xs \<Longrightarrow> first_occurrences xs = xs"
proof (induction xs)
  case Nil
  then show ?case by simp
next
  case (Cons x xs)
  then have "filter (\<lambda>y. y \<noteq> x) xs = xs" by (auto simp: filter_id_conv)
  with Cons show ?case by simp
qed

lemma append_variable_eq:
  "append_variable v (vars, m) =
     (if get_id v |\<in>| fmdom m then (vars, m) else (vars @ [v], fmupd (get_id v) (length vars) m))"
  by (simp add: append_variable_def try_emplace_def)

lemma append_if_absent_eq: "append_if_absent = append_variable"
  by (rule ext, rule ext) (auto simp: append_if_absent_def append_variable_def try_emplace_def emplace_def split: prod.splits)

definition new_variables :: "index_map \<Rightarrow> Variable list \<Rightarrow> Variable list" where
  "new_variables m vs = first_occurrences (filter (\<lambda>v. get_id v |\<notin>| fmdom m) vs)"

lemma new_variables_Cons_old:
  "get_id v |\<in>| fmdom m \<Longrightarrow> new_variables m (v # vs) = new_variables m vs"
  by (simp add: new_variables_def)

lemma new_variables_Cons_new:
  assumes "get_id v |\<notin>| fmdom m"
  shows "new_variables m (v # vs) = v # new_variables (fmupd (get_id v) i m) vs"
proof -
  have "filter (\<lambda>u. get_id u |\<notin>| fmdom (fmupd (get_id v) i m)) vs
        = filter (\<lambda>y. y \<noteq> v) (filter (\<lambda>u. get_id u |\<notin>| fmdom m) vs)"
    by (auto simp: Variable.expand intro!: filter_cong)
  then show ?thesis
    using assms by (simp add: new_variables_def first_occurrences_filter)
qed

lemma fold_append_variable:
  "fold append_variable vs (vars, m) = (vars', m') \<Longrightarrow>
     vars' = vars @ new_variables m vs \<and>
     fmdom m' = fmdom m |\<union>| fset_of_list (map get_id vs) \<and>
     fcard (fmdom m') = fcard (fmdom m) + length (new_variables m vs) \<and>
     (\<forall>k. k |\<in>| fmdom m \<longrightarrow> fmlookup m' k = fmlookup m k) \<and>
     (\<forall>j < length (new_variables m vs).
         fmlookup m' (get_id (new_variables m vs ! j)) = Some (length vars + j))"
proof (induction vs arbitrary: vars m)
  case Nil
  then show ?case by (simp add: new_variables_def)
next
  case (Cons v vs)
  show ?case
  proof (cases "get_id v |\<in>| fmdom m")
    case True
    with Cons.prems have f: "fold append_variable vs (vars, m) = (vars', m')"
      by (simp add: append_variable_eq)
    from Cons.IH[OF f] True show ?thesis
      by (auto simp: new_variables_Cons_old)
  next
    case False
    let ?m = "fmupd (get_id v) (length vars) m"
    from Cons.prems False have f: "fold append_variable vs (vars @ [v], ?m) = (vars', m')"
      by (simp add: append_variable_eq)
    note nvc = new_variables_Cons_new[OF False, of vs "length vars"]
    note IH = Cons.IH[OF f]
    have 1: "vars' = vars @ new_variables m (v # vs)" using IH nvc by simp
    have 2: "fmdom m' = fmdom m |\<union>| fset_of_list (map get_id (v # vs))" using IH by auto
    have c: "fcard (fmdom ?m) = Suc (fcard (fmdom m))"
      using False by (simp add: fcard_finsert_disjoint)
    from IH have "fcard (fmdom m') = fcard (fmdom ?m) + length (new_variables ?m vs)"
      by blast
    then have 3: "fcard (fmdom m') = fcard (fmdom m) + length (new_variables m (v # vs))"
      unfolding c nvc by simp
    have 4: "\<forall>k. k |\<in>| fmdom m \<longrightarrow> fmlookup m' k = fmlookup m k"
      using IH False by auto
    have v: "fmlookup m' (get_id v) = Some (length vars)"
      using IH by auto
    have 5: "\<forall>j < length (new_variables m (v # vs)).
         fmlookup m' (get_id (new_variables m (v # vs) ! j)) = Some (length vars + j)"
    proof (intro allI impI)
      fix j assume j: "j < length (new_variables m (v # vs))"
      show "fmlookup m' (get_id (new_variables m (v # vs) ! j)) = Some (length vars + j)"
      proof (cases j)
        case 0
        then show ?thesis using v nvc by simp
      next
        case (Suc i)
        then show ?thesis using IH j nvc by simp
      qed
    qed
    from 1 2 3 4 5 show ?thesis by blast
  qed
qed

lemma new_variables_distinct:
  "distinct vs \<Longrightarrow> new_variables m vs = filter (\<lambda>v. get_id v |\<notin>| fmdom m) vs"
  by (simp add: new_variables_def first_occurrences_distinct)

text \<open>
  C10.  Called on a sequence and a map of the same size, either overload of
  \<^verbatim>\<open>ExtractAndAppendVariablesFromExpression\<close> returns a sequence and a map of the same
  size again; every id that was indexed keeps its position, the old sequence is a prefix
  of the new one, the variables of the expression that were not indexed are appended
  (in the iteration order of the variable set), each at the position that was the length
  of the sequence just before it was appended; and when every variable of the expression
  is indexed already, sequence and map come back unchanged.
\<close>

theorem ExtractAndAppendVariables_invariant:
  assumes inv: "fcard (fmdom m) = length vars"
  shows "\<exists>vars' m'.
      ExtractAndAppendVariablesFromExpression e vars m = Inr (vars', m') \<and>
      ExtractAndAppendVariablesFromExpression_eigen e vars m = Inr (vars', m') \<and>
      fcard (fmdom m') = length vars' \<and>
      (\<forall>k. k |\<in>| fmdom m \<longrightarrow> fmlookup m' k = fmlookup m k) \<and>
      vars' = vars @ filter (\<lambda>v. get_id v |\<notin>| fmdom m) (GetVariables e) \<and>
      (\<forall>j < length vars' - length vars.
          fmlookup m' (get_id (vars' ! (length vars + j))) = Some (length vars + j)) \<and>
      ((\<forall>v \<in> set (GetVariables e). get_id v |\<in>| fmdom m) \<longrightarrow> vars' = vars \<and> m' = m)"
proof -
  obtain vars' m' where f: "fold append_variable (GetVariables e) (vars, m) = (vars', m')"
    by (cases "fold append_variable (GetVariables e) (vars, m)")
  note nv = new_variables_distinct[OF distinct_GetVariables, of m e]
  note F = fold_append_variable[OF f, unfolded nv]
  have 1: "ExtractAndAppendVariablesFromExpression e vars m = Inr (vars', m')"
    using inv f by (simp add: ExtractAndAppendVariablesFromExpression_def)
  have 2: "ExtractAndAppendVariablesFromExpression_eigen e vars m = Inr (vars', m')"
    using inv f by (simp add: ExtractAndAppendVariablesFromExpression_eigen_def append_if_absent_eq)
  from F have 5: "vars' = vars @ filter (\<lambda>v. get_id v |\<notin>| fmdom m) (GetVariables e)"
    by blast
  from F have "fcard (fmdom m') = fcard (fmdom m)
       + length (filter (\<lambda>v. get_id v |\<notin>| fmdom m) (GetVariables e))"
    by blast
  then have 3: "fcard (fmdom m') = length vars'"
    unfolding 5 inv by simp
  have 4: "\<forall>k. k |\<in>| fmdom m \<longrightarrow> fmlookup m' k = fmlookup m k" using F by blast
  have 6: "\<forall>j < length vars' - length vars.
          fmlookup m' (get_id (vars' ! (length vars + j))) = Some (length vars + j)"
    using F unfolding 5 by (simp add: nth_append)
  have 7: "(\<forall>v \<in> set (GetVariables e). get_id v |\<in>| fmdom m) \<longrightarrow> vars' = vars \<and> m' = m"
  proof
    assume a: "\<forall>v \<in> set (GetVariables e). get_id v |\<in>| fmdom m"
    then have n: "filter (\<lambda>v. get_id v |\<notin>| fmdom m) (GetVariables e) = []"
      by (auto simp: filter_empty_conv)
    from a have "fset_of_list (map get_id (GetVariables e)) |\<subseteq>| fmdom m"
      by (auto simp: fset_of_list_elem)
    with F have dm: "fmdom m' = fmdom m" by auto
    have "m' = m"
    proof (rule fmap_ext)
      fix k show "fmlookup m' k = fmlookup m k"
      proof (cases "k |\<in>| fmdom m")
        case True
        then show ?thesis using 4 by blast
      next
        case False
        with dm have "k |\<notin>| fmdom m'" by simp
        with False show ?thesis by (simp add: fmdom_notD)
      qed
    qed
    with n 5 show "vars' = vars \<and> m' = m" by simp
  qed
  from 1 2 3 4 5 6 7 show ?thesis by blast
qed

theorem ExtractAndAppendVariables_invariant_witness:
  "fcard (fmdom (fmupd 0 0 (fmempty :: index_map))) = length [Variable 0] \<and>
   (\<exists>vars' m'.
      ExtractAndAppendVariablesFromExpression
        (EAdd 0 [(EVar (Variable 2), 1), (EVar (Variable 0), 1)]) [Variable 0] (fmupd 0 0 fmempty)
        = Inr (vars', m') \<and>
      fcard (fmdom m') = length vars' \<and>
      fmlookup m' 0 = Some 0 \<and>
      vars' = [Variable 0, Variable 2] \<and>
      fmlookup m' 2 = Some 1)"
proof -
  have h: "fcard (fmdom (fmupd 0 0 (fmempty :: index_map))) = length [Variable 0]"
    by (simp add: fcard_finsert_disjoint)
  have g: "GetVariables (EAdd 0 [(EVar (Variable 2), 1), (EVar (Variable 0), 1)])
             = [Variable 0, Variable 2]"
    by (simp add: GetVariables_def)
  from ExtractAndAppendVariables_invariant[OF h,
         of "EAdd 0 [(EVar (Variable 2), 1), (EVar (Variable 0), 1)]"]
  show ?thesis unfolding g using h by fastforce
qed

subsection \<open>Building an index from scratch\<close>

lemma fold_extract_step:
  "distinct (map get_id vs) \<Longrightarrow> \<forall>v\<in>set vs. get_id v |\<notin>| fmdom m \<Longrightarrow>
   fold (\<lambda>var (vars, m, var_count).
            (vars @ [var], emplace (get_id var) var_count m, var_count + 1))
        vs (vars, m, length vars)
   = (case fold append_variable vs (vars, m) of (vars', m') \<Rightarrow> (vars', m', length vars'))"
proof (induction vs arbitrary: vars m)
  case Nil
  then show ?case by simp
next
  case (Cons v vs)
  have nv: "get_id v |\<notin>| fmdom m" using Cons.prems by simp
  have d: "distinct (map get_id vs)" using Cons.prems by simp
  have n: "\<forall>u\<in>set vs. get_id u |\<notin>| fmdom (fmupd (get_id v) (length vars) m)"
  proof
    fix u assume u: "u \<in> set vs"
    with Cons.prems have "get_id u \<noteq> get_id v" by (metis distinct.simps(2) imageI list.simps(9) list.set_map)
    with u Cons.prems show "get_id u |\<notin>| fmdom (fmupd (get_id v) (length vars) m)" by simp
  qed
  from Cons.IH[OF d n, of "vars @ [v]"] nv show ?case
    by (simp add: append_variable_eq emplace_def try_emplace_def)
qed

lemma ExtractVariablesFromExpression_fold:
  "ExtractVariablesFromExpression e = fold append_variable (GetVariables e) ([], fmempty)"
proof -
  obtain vars m where f: "fold append_variable (GetVariables e) ([], fmempty) = (vars, m)"
    by (cases "fold append_variable (GetVariables e) ([], fmempty)")
  have "fold (\<lambda>var (vars, m, var_count).
            (vars @ [var], emplace (get_id var) var_count m, var_count + 1))
        (GetVariables e) ([], fmempty, length ([] :: Variable list))
        = (case fold append_variable (GetVariables e) ([], fmempty) of
             (vars', m') \<Rightarrow> (vars', m', length vars'))"
    by (rule fold_extract_step[OF distinct_ids_GetVariables]) simp
  then have "fold (\<lambda>var (vars, m, var_count).
            (vars @ [var], emplace (get_id var) var_count m, var_count + 1))
        (GetVariables e) ([], fmempty, 0) = (vars, m, length vars)"
    unfolding f by simp
  then show ?thesis
    unfolding ExtractVariablesFromExpression_def Let_def f by simp
qed

lemma fold_fold_append_variable:
  "fold (\<lambda>e s. fold append_variable (GetVariables e) s) es s
   = fold append_variable (concat (map GetVariables es)) s"
  by (induction es arbitrary: s) simp_all

lemma ExtractVariablesFromExpressions_fold:
  "ExtractVariablesFromExpressions es
   = fold append_variable (concat (map GetVariables es)) ([], fmempty)"
  by (simp add: ExtractVariablesFromExpressions_def append_if_absent_eq fold_fold_append_variable)

lemma fold_append_variable_empty:
  assumes "fold append_variable vs ([], fmempty) = (vars, m)"
  shows "vars = first_occurrences vs \<and>
         fmdom m = fset_of_list (map get_id vars) \<and>
         (\<forall>j < length vars. fmlookup m (get_id (vars ! j)) = Some j)"
proof -
  have n: "new_variables fmempty vs = first_occurrences vs"
    by (simp add: new_variables_def)
  note F = fold_append_variable[OF assms, unfolded n]
  from F have 1: "vars = first_occurrences vs" by simp
  have "fset_of_list (map get_id (first_occurrences vs)) = fset_of_list (map get_id vs)"
    by (simp add: fset_of_list.rep_eq set_first_occurrences fset_cong[symmetric] del: fset_of_list_map)
  with F 1 have 2: "fmdom m = fset_of_list (map get_id vars)" by simp
  from F 1 have 3: "\<forall>j < length vars. fmlookup m (get_id (vars ! j)) = Some j" by simp
  from 1 2 3 show ?thesis by blast
qed

text \<open>
  C9 (amended).  \<^verbatim>\<open>ExtractVariablesFromExpression\<close> returns every free variable once
  and a map that sends each variable's id to its position.  For one expression the
  sequence is the variable set in its own iteration order, that is by ascending id; for
  a vector of expressions the expressions are scanned in order, and the variables of each
  one that were not seen before are appended by ascending id.
\<close>

theorem ExtractVariablesFromExpression_order:
  "(case ExtractVariablesFromExpression e of (vars, m) \<Rightarrow>
      vars = GetVariables e \<and> set vars = set (occurrences e) \<and> distinct vars \<and>
      sorted (map get_id vars) \<and>
      fmdom m = fset_of_list (map get_id vars) \<and>
      (\<forall>j < length vars. fmlookup m (get_id (vars ! j)) = Some j)) \<and>
   (case ExtractVariablesFromExpressions es of (vars, m) \<Rightarrow>
      vars = first_occurrences (concat (map GetVariables es)) \<and>
      set vars = (\<Union>e \<in> set es. set (occurrences e)) \<and> distinct vars \<and>
      fmdom m = fset_of_list (map get_id vars) \<and>
      (\<forall>j < length vars. fmlookup m (get_id (vars ! j)) = Some j))"
proof -
  obtain vars m where r: "ExtractVariablesFromExpression e = (vars, m)"
    by (cases "ExtractVariablesFromExpression e")
  then have f: "fold append_variable (GetVariables e) ([], fmempty) = (vars, m)"
    by (simp add: ExtractVariablesFromExpression_fold)
  note F = fold_append_variable_empty[OF f]
  have v: "vars = GetVariables e"
    using F by (simp add: first_occurrences_distinct distinct_GetVariables)
  have A: "vars = GetVariables e \<and> set vars = set (occurrences e) \<and> distinct vars \<and>
      sorted (map get_id vars) \<and>
      fmdom m = fset_of_list (map get_id vars) \<and>
      (\<forall>j < length vars. fmlookup m (get_id (vars ! j)) = Some j)"
  proof (intro conjI)
    show "vars = GetVariables e" by (rule v)
    show "set vars = set (occurrences e)" unfolding v by (rule set_GetVariables)
    show "distinct vars" unfolding v by (rule distinct_GetVariables)
    show "sorted (map get_id vars)" unfolding v by (rule sorted_GetVariables)
    show "fmdom m = fset_of_list (map get_id vars)" using F by blast
    show "\<forall>j < length vars. fmlookup m (get_id (vars ! j)) = Some j" using F by blast
  qed
  obtain vars2 m2 where r2: "ExtractVariablesFromExpressions es = (vars2, m2)"
    by (cases "ExtractVariablesFromExpressions es")
  then have f2: "fold append_variable (concat (map GetVariables es)) ([], fmempty) = (vars2, m2)"
    by (simp add: ExtractVariablesFromExpressions_fold)
  note F2 = fold_append_variable_empty[OF f2]
  have s2: "set vars2 = (\<Union>e \<in> set es. set (occurrences e))"
    using F2 by (simp add: set_first_occurrences set_GetVariables)
  have d2: "distinct vars2" using F2 by (simp add: distinct_first_occurrences)
  have B: "vars2 = first_occurrences (concat (map GetVariables es)) \<and>
      set vars2 = (\<Union>e \<in> set es. set (occurrences e)) \<and> distinct vars2 \<and>
      fmdom m2 = fset_of_list (map get_id vars2) \<and>
      (\<forall>j < length vars2. fmlookup m2 (get_id (vars2 ! j)) = Some j)"
  proof (intro conjI)
    show "vars2 = first_occurrences (concat (map GetVariables es))" using F2 by blast
    show "set vars2 = (\<Union>e \<in> set es. set (occurrences e))" by (rule s2)
    show "distinct vars2" by (rule d2)
    show "fmdom m2 = fset_of_list (map get_id vars2)" using F2 by blast
    show "\<forall>j < length vars2. fmlookup m2 (get_id (vars2 ! j)) = Some j" using F2 by blast
  qed
  show ?thesis unfolding r r2 prod.case by (rule conjI[OF A B])
qed


lemma GetVariables_pow_example:
  "GetVariables (EPow (EVar (Variable 3)) (EVar (Variable 2))) = [Variable 2, Variable 3]"
  by (simp add: GetVariables_def)

theorem ExtractVariablesFromExpression_order_witness:
  "fst (ExtractVariablesFromExpression (EPow (EVar (Variable 3)) (EVar (Variable 2))))
     = [Variable 2, Variable 3] \<and>
   (1::nat) < length [Variable 2, Variable 3] \<and>
   fmlookup (snd (ExtractVariablesFromExpression (EPow (EVar (Variable 3)) (EVar (Variable 2)))))
      (get_id ([Variable 2, Variable 3] ! 1)) = Some 1 \<and>
   fst (ExtractVariablesFromExpressions [EVar (Variable 3), EPow (EVar (Variable 3)) (EVar (Variable 2))])
     = [Variable 3, Variable 2]"
proof -
  let ?e = "EPow (EVar (Variable 3)) (EVar (Variable 2))"
  let ?es = "[EVar (Variable 3), ?e]"
  note g = GetVariables_pow_example
  have g1: "GetVariables (EVar (Variable 3)) = [Variable 3]"
    by (simp add: GetVariables_def)
  obtain vars m where r: "ExtractVariablesFromExpression ?e = (vars, m)"
    by (cases "ExtractVariablesFromExpression ?e")
  obtain vars2 m2 where r2: "ExtractVariablesFromExpressions ?es = (vars2, m2)"
    by (cases "ExtractVariablesFromExpressions ?es")
  note T = ExtractVariablesFromExpression_order[of ?e ?es, unfolded r r2 prod.case]
  from T have v: "vars = [Variable 2, Variable 3]" unfolding g by blast
  from T have "\<forall>j < length vars. fmlookup m (get_id (vars ! j)) = Some j" by blast
  then have "1 < length vars \<longrightarrow> fmlookup m (get_id (vars ! 1)) = Some 1" by blast
  then have l: "fmlookup m (get_id ([Variable 2, Variable 3] ! 1)) = Some 1"
    unfolding v by simp
  from T have "vars2 = first_occurrences (concat (map GetVariables ?es))" by blast
  then have v2: "vars2 = [Variable 3, Variable 2]"
    by (simp add: g g1)
  show ?thesis unfolding r r2 fst_conv snd_conv using v l v2 by simp
qed

text \<open>
  C9 as stated: the sequence is in the order of first occurrence in a depth-first scan.
  For \<open>pow(v\<^sub>3, v\<^sub>2)\<close> the scan meets \<open>v\<^sub>3\<close> first, the function returns \<open>v\<^sub>2\<close> first.
\<close>

theorem ExtractVariablesFromExpression_not_depth_first:
  "fst (ExtractVariablesFromExpression (EPow (EVar (Variable 3)) (EVar (Variable 2))))
     \<noteq> depth_first_variables (EPow (EVar (Variable 3)) (EVar (Variable 2)))"
  by (simp add: ExtractVariablesFromExpression_fold GetVariables_pow_example append_variable_eq
        depth_first_variables_def)

section \<open>The order on expressions\<close>


text \<open>
  Modelled from the spec: the structural total order on expressions
  (\<^verbatim>\<open>Expression::Less\<close>, the comparison behind \<^verbatim>\<open>std::map<Expression, ...>\<close>, which
  is not part of \<^verbatim>\<open>decompose.cc\<close>).  Two expressions are compared by kind tag first and
  then by their contents, maps and argument lists lexicographically
  (\<^verbatim>\<open>std::lexicographical_compare\<close>).
\<close>

fun lexicographical_compare :: "('a \<Rightarrow> 'a \<Rightarrow> bool) \<Rightarrow> 'a list \<Rightarrow> 'a list \<Rightarrow> bool" where
  "lexicographical_compare lt [] [] = False"
| "lexicographical_compare lt [] (y # ys) = True"
| "lexicographical_compare lt (x # xs) [] = False"
| "lexicographical_compare lt (x # xs) (y # ys) =
     (if lt x y then True else if lt y x then False else lexicographical_compare lt xs ys)"

lemma lexicographical_compare_cong [fundef_cong]:
  assumes "xs = xs'" "ys = ys'"
    and "\<And>a b. a \<in> set xs' \<Longrightarrow> b \<in> set ys' \<Longrightarrow> lt a b = lt' a b"
    and "\<And>a b. a \<in> set xs' \<Longrightarrow> b \<in> set ys' \<Longrightarrow> lt b a = lt' b a"
  shows "lexicographical_compare lt xs ys = lexicographical_compare lt' xs' ys'"
  unfolding assms(1,2) using assms(3,4)
  by (induction lt xs' ys' rule: lexicographical_compare.induct) auto

fun kind_rank :: "Kind \<Rightarrow> nat" where
  "kind_rank Div = 4" | "kind_rank Log = 5" | "kind_rank Abs = 6" | "kind_rank Exp = 7"
| "kind_rank Sqrt = 8" | "kind_rank Sin = 10" | "kind_rank Cos = 11" | "kind_rank Tan = 12"
| "kind_rank Asin = 13" | "kind_rank Acos = 14" | "kind_rank Atan = 15" | "kind_rank Atan2 = 16"
| "kind_rank Sinh = 17" | "kind_rank Cosh = 18" | "kind_rank Tanh = 19" | "kind_rank Min = 20"
| "kind_rank Max = 21" | "kind_rank Ceil = 22" | "kind_rank Floor = 23"
| "kind_rank IfThenElse = 24" | "kind_rank (UninterpretedFunction name) = 26"

fun get_kind :: "Expression \<Rightarrow> nat" where
  "get_kind (EConstant c) = 0"
| "get_kind (EVar v) = 1"
| "get_kind (EAdd c ts) = 2"
| "get_kind (EMul c fs) = 3"
| "get_kind (EPow b x) = 9"
| "get_kind (ENonPoly k args) = kind_rank k"

fun name_of :: "Kind \<Rightarrow> string" where
  "name_of (UninterpretedFunction name) = name"
| "name_of k = []"

definition char_less :: "char \<Rightarrow> char \<Rightarrow> bool" where
  "char_less c d = ((of_char c :: nat) < of_char d)"

lemma size_mem_add:
  "p \<in> set (m :: (Expression \<times> real) list) \<Longrightarrow>
     size (fst p) < size_list (size_prod size (\<lambda>x. 0)) m"
  by (induction m) auto

lemma size_mem_mul:
  "p \<in> set (m :: (Expression \<times> Expression) list) \<Longrightarrow>
     size (fst p) + size (snd p) < size_list (size_prod size size) m"
  by (induction m) auto

lemma size_mem_args:
  "x \<in> set (xs :: Expression list) \<Longrightarrow> size x < size_list size xs"
  by (induction xs) auto

function (sequential) Less :: "Expression \<Rightarrow> Expression \<Rightarrow> bool" where
  "Less (EConstant v1) (EConstant v2) = (v1 < v2)"
| "Less (EVar x) (EVar y) = (get_id x < get_id y)"
| "Less (EAdd c1 m1) (EAdd c2 m2) =
     (if c1 < c2 then True else if c2 < c1 then False
      else lexicographical_compare
             (\<lambda>p q. if Less (fst p) (fst q) then True
                    else if Less (fst q) (fst p) then False
                    else snd p < snd q) m1 m2)"
| "Less (EMul c1 m1) (EMul c2 m2) =
     (if c1 < c2 then True else if c2 < c1 then False
      else lexicographical_compare
             (\<lambda>p q. if Less (fst p) (fst q) then True
                    else if Less (fst q) (fst p) then False
                    else Less (snd p) (snd q)) m1 m2)"
| "Less (EPow b1 x1) (EPow b2 x2) =
     (if Less b1 b2 then True else if Less b2 b1 then False else Less x1 x2)"
| "Less (ENonPoly k1 a1) (ENonPoly k2 a2) =
     (if kind_rank k1 < kind_rank k2 then True
      else if kind_rank k2 < kind_rank k1 then False
      else if lexicographical_compare char_less (name_of k1) (name_of k2) then True
      else if lexicographical_compare char_less (name_of k2) (name_of k1) then False
      else lexicographical_compare Less a1 a2)"
| "Less a b = (get_kind a < get_kind b)"
  by pat_completeness auto
termination
  by (relation "measure (\<lambda>(a, b). size a + size b)")
     (auto dest!: size_mem_add size_mem_mul size_mem_args)


text \<open>The order is a strict linear order, so equivalent keys are identical expressions.\<close>

lemma lex_irrefl:
  "(\<And>x. x \<in> set xs \<Longrightarrow> \<not> lt x x) \<Longrightarrow> \<not> lexicographical_compare lt xs xs"
  by (induction xs) auto

lemma lex_total:
  "(\<And>x y. x \<in> set xs \<Longrightarrow> \<not> lt x y \<Longrightarrow> \<not> lt y x \<Longrightarrow> x = y) \<Longrightarrow>
   \<not> lexicographical_compare lt xs ys \<Longrightarrow> \<not> lexicographical_compare lt ys xs \<Longrightarrow> xs = ys"
proof (induction xs arbitrary: ys)
  case Nil
  then show ?case by (cases ys) auto
next
  case (Cons x xs)
  show ?case
  proof (cases ys)
    case Nil
    with Cons.prems show ?thesis by simp
  next
    case (Cons y ys')
    from Cons.prems(2,3) have n: "\<not> lt x y" "\<not> lt y x"
      unfolding Cons by (auto split: if_splits)
    then have xy: "x = y" using Cons.prems(1)[of x y] by simp
    from Cons.prems(2,3) n have "\<not> lexicographical_compare lt xs ys'"
      "\<not> lexicographical_compare lt ys' xs"
      unfolding Cons by auto
    then have "xs = ys'" using Cons.IH[of ys'] Cons.prems(1) by auto
    with xy Cons show ?thesis by simp
  qed
qed

lemma lex_Cons_cases:
  assumes "lexicographical_compare lt (x # xs) (y # ys)"
    and "\<And>x y. \<not> lt x y \<Longrightarrow> \<not> lt y x \<Longrightarrow> x = y"
  shows "lt x y \<or> (x = y \<and> lexicographical_compare lt xs ys)"
proof (cases "lt x y")
  case True
  then show ?thesis by simp
next
  case False
  with assms(1) have n: "\<not> lt y x" by (simp split: if_splits)
  with False assms(1) have r: "lexicographical_compare lt xs ys" by simp
  from False n have "x = y" by (rule assms(2))
  with r show ?thesis by simp
qed

lemma lex_trans:
  assumes "\<And>x y z. x \<in> set xs \<Longrightarrow> lt x y \<Longrightarrow> lt y z \<Longrightarrow> lt x z"
    and tot: "\<And>x y. \<not> lt x y \<Longrightarrow> \<not> lt y x \<Longrightarrow> x = y"
    and irr: "\<And>x. \<not> lt x x"
  shows "lexicographical_compare lt xs ys \<Longrightarrow> lexicographical_compare lt ys zs \<Longrightarrow>
         lexicographical_compare lt xs zs"
  using assms(1)
proof (induction xs arbitrary: ys zs)
  case Nil
  from Nil.prems(2) have "zs \<noteq> []" by (cases ys; cases zs) simp_all
  then show ?case by (cases zs) simp_all
next
  case (Cons x xs)
  from Cons.prems(1) obtain y ys' where ys: "ys = y # ys'" by (cases ys) simp_all
  from Cons.prems(2) ys obtain z zs' where zs: "zs = z # zs'" by (cases zs) simp_all
  have tr: "lt x y \<Longrightarrow> lt y z \<Longrightarrow> lt x z" using Cons.prems(3)[of x y z] by simp
  have IH: "lexicographical_compare lt xs ys' \<Longrightarrow> lexicographical_compare lt ys' zs' \<Longrightarrow>
            lexicographical_compare lt xs zs'"
  proof -
    assume 1: "lexicographical_compare lt xs ys'" and 2: "lexicographical_compare lt ys' zs'"
    show ?thesis
    proof (rule Cons.IH[OF 1 2])
      fix a b c assume "a \<in> set xs" "lt a b" "lt b c"
      then show "lt a c" using Cons.prems(3)[of a b c] by simp
    qed
  qed
  from Cons.prems(1) have a: "lt x y \<or> (x = y \<and> lexicographical_compare lt xs ys')"
    unfolding ys by (rule lex_Cons_cases) (rule tot)
  from Cons.prems(2) have b: "lt y z \<or> (y = z \<and> lexicographical_compare lt ys' zs')"
    unfolding ys zs by (rule lex_Cons_cases) (rule tot)
  from a b tr IH have c: "lt x z \<or> (x = z \<and> lexicographical_compare lt xs zs')"
    by blast
  show ?case
  proof (cases "lt x z")
    case True
    then show ?thesis unfolding zs by simp
  next
    case False
    with c have "x = z" and "lexicographical_compare lt xs zs'" by simp_all
    then show ?thesis unfolding zs using irr[of z] by simp
  qed
qed

definition kind_of_rank :: "nat \<Rightarrow> string \<Rightarrow> Kind" where
  "kind_of_rank r name =
     (if r = 4 then Div else if r = 5 then Log else if r = 6 then Abs else if r = 7 then Exp
      else if r = 8 then Sqrt else if r = 10 then Sin else if r = 11 then Cos
      else if r = 12 then Tan else if r = 13 then Asin else if r = 14 then Acos
      else if r = 15 then Atan else if r = 16 then Atan2 else if r = 17 then Sinh
      else if r = 18 then Cosh else if r = 19 then Tanh else if r = 20 then Min
      else if r = 21 then Max else if r = 22 then Ceil else if r = 23 then Floor
      else if r = 24 then IfThenElse else UninterpretedFunction name)"

lemma kind_of_rank_inverse: "kind_of_rank (kind_rank k) (name_of k) = k"
  by (cases k) (simp_all add: kind_of_rank_def)

lemma kind_rank_name_inj: "kind_rank k1 = kind_rank k2 \<Longrightarrow> name_of k1 = name_of k2 \<Longrightarrow> k1 = k2"
  by (metis kind_of_rank_inverse)

lemma char_less_irrefl: "\<not> char_less c c"
  by (simp add: char_less_def)

lemma char_less_total: "\<not> char_less c d \<Longrightarrow> \<not> char_less d c \<Longrightarrow> c = d"
  by (simp add: char_less_def not_less)

lemma char_less_trans: "char_less c d \<Longrightarrow> char_less d e \<Longrightarrow> char_less c e"
  by (simp add: char_less_def)

lemma kind_rank_bounds: "4 \<le> kind_rank k \<and> kind_rank k \<noteq> 9"
  by (cases k) auto

lemma kind_rank_simps [simp]:
  "kind_rank k \<noteq> 0" "kind_rank k \<noteq> Suc 0" "kind_rank k \<noteq> 2" "kind_rank k \<noteq> 3"
  "kind_rank k \<noteq> 9" "0 < kind_rank k" "Suc 0 < kind_rank k" "2 < kind_rank k"
  "3 < kind_rank k" "\<not> kind_rank k < 2" "\<not> kind_rank k < 3" "\<not> kind_rank k < Suc 0"
  "9 \<noteq> kind_rank k" "2 \<noteq> kind_rank k" "3 \<noteq> kind_rank k"
  "Suc 0 \<le> kind_rank k" "2 \<le> kind_rank k" "3 \<le> kind_rank k"
  "0 \<noteq> kind_rank k" "Suc 0 \<noteq> kind_rank k"
  using kind_rank_bounds[of k] by auto

lemma get_kind_less_imp_Less: "get_kind a < get_kind b \<Longrightarrow> Less a b"
  by (cases a; cases b) auto

lemma Less_imp_get_kind_le: "Less a b \<Longrightarrow> get_kind a \<le> get_kind b"
  by (cases a; cases b) (auto split: if_splits)

lemma Less_irrefl: "\<not> Less a a"
proof (induction a)
  case (EAdd c m)
  have "\<not> lexicographical_compare
             (\<lambda>p q. if Less (fst p) (fst q) then True
                    else if Less (fst q) (fst p) then False
                    else snd p < snd q) m m"
  proof (rule lex_irrefl)
    fix p assume "p \<in> set m"
    moreover have "fst p \<in> Basic_BNFs.fsts p" by (cases p) simp
    ultimately have "\<not> Less (fst p) (fst p)" using EAdd by blast
    then show "\<not> (if Less (fst p) (fst p) then True
                    else if Less (fst p) (fst p) then False
                    else snd p < snd p)" by simp
  qed
  then show ?case by simp
next
  case (EMul c m)
  have "\<not> lexicographical_compare
             (\<lambda>p q. if Less (fst p) (fst q) then True
                    else if Less (fst q) (fst p) then False
                    else Less (snd p) (snd q)) m m"
  proof (rule lex_irrefl)
    fix p assume "p \<in> set m"
    moreover have "fst p \<in> Basic_BNFs.fsts p" "snd p \<in> Basic_BNFs.snds p" by (cases p; simp)+
    ultimately have "\<not> Less (fst p) (fst p)" "\<not> Less (snd p) (snd p)"
      using EMul by blast+
    then show "\<not> (if Less (fst p) (fst p) then True
                    else if Less (fst p) (fst p) then False
                    else Less (snd p) (snd p))" by simp
  qed
  then show ?case by simp
next
  case (ENonPoly k args)
  have "\<not> lexicographical_compare Less args args"
    by (rule lex_irrefl) (use ENonPoly in auto)
  moreover have "\<not> lexicographical_compare char_less (name_of k) (name_of k)"
    by (rule lex_irrefl) (rule char_less_irrefl)
  ultimately show ?case by simp
qed simp_all

lemma Less_total_aux: "\<forall>b. \<not> Less a b \<longrightarrow> \<not> Less b a \<longrightarrow> a = b"
proof (induction a)
  case (EConstant v)
  show ?case
  proof (intro allI impI)
    fix b assume "\<not> Less (EConstant v) b" "\<not> Less b (EConstant v)"
    then show "EConstant v = b" by (cases b) auto
  qed
next
  case (EVar x)
  show ?case
  proof (intro allI impI)
    fix b assume "\<not> Less (EVar x) b" "\<not> Less b (EVar x)"
    then show "EVar x = b" by (cases b) (auto simp: Variable.expand)
  qed
next
  case (EAdd c m)
  show ?case
  proof (intro allI impI)
    fix b assume n: "\<not> Less (EAdd c m) b" "\<not> Less b (EAdd c m)"
    then obtain c2 m2 where b: "b = EAdd c2 m2" by (cases b) auto
    let ?cmp = "\<lambda>p q. if Less (fst p) (fst q) then True
                    else if Less (fst q) (fst p) then False
                    else snd p < (snd q :: real)"
    from n have c: "c = c2" unfolding b by (auto split: if_splits)
    from n c have l: "\<not> lexicographical_compare ?cmp m m2" "\<not> lexicographical_compare ?cmp m2 m"
      unfolding b by auto
    have "m = m2"
    proof (rule lex_total[OF _ l])
      fix p q assume p: "p \<in> set m" and pq: "\<not> ?cmp p q" "\<not> ?cmp q p"
      have "fst p \<in> Basic_BNFs.fsts p" by (cases p) simp
      with p EAdd have IH: "\<forall>b. \<not> Less (fst p) b \<longrightarrow> \<not> Less b (fst p) \<longrightarrow> fst p = b" by blast
      from pq have "\<not> Less (fst p) (fst q)" "\<not> Less (fst q) (fst p)" by (auto split: if_splits)
      with IH have f: "fst p = fst q" by blast
      with pq Less_irrefl have "snd p = snd q" by (auto split: if_splits)
      with f show "p = q" by (simp add: prod_eq_iff)
    qed
    with c b show "EAdd c m = b" by simp
  qed
next
  case (EMul c m)
  show ?case
  proof (intro allI impI)
    fix b assume n: "\<not> Less (EMul c m) b" "\<not> Less b (EMul c m)"
    then obtain c2 m2 where b: "b = EMul c2 m2" by (cases b) auto
    let ?cmp = "\<lambda>p q. if Less (fst p) (fst q) then True
                    else if Less (fst q) (fst p) then False
                    else Less (snd p) (snd q)"
    from n have c: "c = c2" unfolding b by (auto split: if_splits)
    from n c have l: "\<not> lexicographical_compare ?cmp m m2" "\<not> lexicographical_compare ?cmp m2 m"
      unfolding b by auto
    have "m = m2"
    proof (rule lex_total[OF _ l])
      fix p q assume p: "p \<in> set m" and pq: "\<not> ?cmp p q" "\<not> ?cmp q p"
      have "fst p \<in> Basic_BNFs.fsts p" "snd p \<in> Basic_BNFs.snds p" by (cases p; simp)+
      with p EMul have IH: "\<forall>b. \<not> Less (fst p) b \<longrightarrow> \<not> Less b (fst p) \<longrightarrow> fst p = b"
        and IH2: "\<forall>b. \<not> Less (snd p) b \<longrightarrow> \<not> Less b (snd p) \<longrightarrow> snd p = b" by blast+
      from pq have "\<not> Less (fst p) (fst q)" "\<not> Less (fst q) (fst p)" by (auto split: if_splits)
      with IH have f: "fst p = fst q" by blast
      with pq Less_irrefl have "\<not> Less (snd p) (snd q)" "\<not> Less (snd q) (snd p)"
        by (auto split: if_splits)
      with IH2 have "snd p = snd q" by blast
      with f show "p = q" by (simp add: prod_eq_iff)
    qed
    with c b show "EMul c m = b" by simp
  qed
next
  case (EPow b1 x1)
  show ?case
  proof (intro allI impI)
    fix b assume n: "\<not> Less (EPow b1 x1) b" "\<not> Less b (EPow b1 x1)"
    then obtain b2 x2 where b: "b = EPow b2 x2" by (cases b) (auto simp: kind_rank_bounds)
    from n have "\<not> Less b1 b2" "\<not> Less b2 b1" unfolding b by (auto split: if_splits)
    with EPow have 1: "b1 = b2" by blast
    with n Less_irrefl have "\<not> Less x1 x2" "\<not> Less x2 x1" unfolding b by (auto split: if_splits)
    with EPow have "x1 = x2" by blast
    with 1 b show "EPow b1 x1 = b" by simp
  qed
next
  case (ENonPoly k args)
  show ?case
  proof (intro allI impI)
    fix b assume n: "\<not> Less (ENonPoly k args) b" "\<not> Less b (ENonPoly k args)"
    have kb: "4 \<le> kind_rank k" "kind_rank k \<noteq> 9" using kind_rank_bounds[of k] by simp_all
    from n kb obtain k2 a2 where b: "b = ENonPoly k2 a2" by (cases b) auto
    from n have r: "kind_rank k = kind_rank k2" unfolding b by (auto split: if_splits)
    from n r have "\<not> lexicographical_compare char_less (name_of k) (name_of k2)"
      "\<not> lexicographical_compare char_less (name_of k2) (name_of k)"
      unfolding b by (auto split: if_splits)
    then have "name_of k = name_of k2"
      by (rule lex_total[rotated]) (rule char_less_total)
    with r have k: "k = k2" by (rule kind_rank_name_inj)
    from n k have l: "\<not> lexicographical_compare Less args a2" "\<not> lexicographical_compare Less a2 args"
      unfolding b using lex_irrefl[of "name_of k2" char_less, OF char_less_irrefl]
      by (auto split: if_splits)
    have "args = a2"
      by (rule lex_total[OF _ l]) (use ENonPoly in blast)
    with k b show "ENonPoly k args = b" by simp
  qed
qed

lemma Less_total: "\<not> Less a b \<Longrightarrow> \<not> Less b a \<Longrightarrow> a = b"
  using Less_total_aux by blast

lemma if_chain_iff: "(if A then True else if B then False else C) \<longleftrightarrow> A \<or> (\<not> B \<and> C)"
  by auto

lemma cmp_iff:
  "(if Less a b then True else if Less b a then False else C) \<longleftrightarrow> Less a b \<or> (a = b \<and> C)"
proof (cases "Less a b")
  case True
  then show ?thesis by simp
next
  case False
  show ?thesis
  proof (cases "Less b a")
    case True
    then have "a \<noteq> b" using Less_irrefl[of a] by auto
    with True False show ?thesis by simp
  next
    case nb: False
    with False have "a = b" by (rule Less_total)
    with False show ?thesis by simp
  qed
qed

lemma Less_trans_aux: "\<forall>b c. Less a b \<longrightarrow> Less b c \<longrightarrow> Less a c"
proof (induction a)
  case (EConstant v)
  show ?case
  proof (intro allI impI)
    fix b c assume ab: "Less (EConstant v) b" and bc: "Less b c"
    show "Less (EConstant v) c"
    proof (cases "get_kind (EConstant v) < get_kind c")
      case True
      then show ?thesis by (rule get_kind_less_imp_Less)
    next
      case False
      with Less_imp_get_kind_le[OF ab] Less_imp_get_kind_le[OF bc]
      have "get_kind b = 0" "get_kind c = 0" by simp_all
      then obtain v2 v3 where "b = EConstant v2" "c = EConstant v3"
        by (cases b; cases c) auto
      with ab bc show ?thesis by simp
    qed
  qed
next
  case (EVar x)
  show ?case
  proof (intro allI impI)
    fix b c assume ab: "Less (EVar x) b" and bc: "Less b c"
    show "Less (EVar x) c"
    proof (cases "get_kind (EVar x) < get_kind c")
      case True
      then show ?thesis by (rule get_kind_less_imp_Less)
    next
      case False
      with Less_imp_get_kind_le[OF ab] Less_imp_get_kind_le[OF bc]
      have "get_kind b = 1" "get_kind c = 1" by simp_all
      then obtain v2 v3 where "b = EVar v2" "c = EVar v3"
        by (cases b; cases c) auto
      with ab bc show ?thesis by simp
    qed
  qed
next
  case (EAdd c1 m1)
  show ?case
  proof (intro allI impI)
    fix b c assume ab: "Less (EAdd c1 m1) b" and bc: "Less b c"
    show "Less (EAdd c1 m1) c"
    proof (cases "get_kind (EAdd c1 m1) < get_kind c")
      case True
      then show ?thesis by (rule get_kind_less_imp_Less)
    next
      case False
      with Less_imp_get_kind_le[OF ab] Less_imp_get_kind_le[OF bc]
      have "get_kind b = 2" "get_kind c = 2" by simp_all
      then obtain c2 m2 c3 m3 where b: "b = EAdd c2 m2" and c: "c = EAdd c3 m3"
        by (cases b; cases c) auto
      let ?cmp = "\<lambda>p q. if Less (fst p) (fst q) then True
                    else if Less (fst q) (fst p) then False
                    else snd p < (snd q :: real)"
      have cmp: "\<And>p q. ?cmp p q \<longleftrightarrow> Less (fst p) (fst q) \<or> (fst p = fst q \<and> snd p < snd q)"
        by (rule cmp_iff)
      from ab have "c1 < c2 \<or> (\<not> c2 < c1 \<and> lexicographical_compare ?cmp m1 m2)"
        unfolding b Less.simps if_chain_iff .
      then have 1: "c1 < c2 \<or> (c1 = c2 \<and> lexicographical_compare ?cmp m1 m2)"
        by (cases "c1 < c2") simp_all
      from bc have "c2 < c3 \<or> (\<not> c3 < c2 \<and> lexicographical_compare ?cmp m2 m3)"
        unfolding b c Less.simps if_chain_iff .
      then have 2: "c2 < c3 \<or> (c2 = c3 \<and> lexicographical_compare ?cmp m2 m3)"
        by (cases "c2 < c3") simp_all
      have tr: "lexicographical_compare ?cmp m1 m2 \<Longrightarrow> lexicographical_compare ?cmp m2 m3 \<Longrightarrow>
                lexicographical_compare ?cmp m1 m3"
      proof (rule lex_trans[where lt = ?cmp and ys = m2])
        fix p q r assume p: "p \<in> set m1" and pq: "?cmp p q" and qr: "?cmp q r"
        have "fst p \<in> Basic_BNFs.fsts p" by (cases p) simp
        with p EAdd have IH: "\<And>b c. Less (fst p) b \<Longrightarrow> Less b c \<Longrightarrow> Less (fst p) c" by blast
        from pq qr have "Less (fst p) (fst r) \<or> (fst p = fst r \<and> snd p < snd r)"
          unfolding cmp using IH by force
        then show "?cmp p r" unfolding cmp .
      next
        fix p q :: "Expression \<times> real" assume "\<not> ?cmp p q" "\<not> ?cmp q p"
        then show "p = q" unfolding cmp using Less_total[of "fst p" "fst q"]
          by (auto simp: prod_eq_iff)
      next
        fix p :: "Expression \<times> real" show "\<not> ?cmp p p" using Less_irrefl by simp
      qed
      from 1 2 tr have "c1 < c3 \<or> (c1 = c3 \<and> lexicographical_compare ?cmp m1 m3)"
        by (elim disjE conjE) simp_all
      then have "c1 < c3 \<or> (\<not> c3 < c1 \<and> lexicographical_compare ?cmp m1 m3)"
        by (elim disjE conjE) simp_all
      then show ?thesis unfolding c Less.simps if_chain_iff .
    qed
  qed
next
  case (EMul c1 m1)
  show ?case
  proof (intro allI impI)
    fix b c assume ab: "Less (EMul c1 m1) b" and bc: "Less b c"
    show "Less (EMul c1 m1) c"
    proof (cases "get_kind (EMul c1 m1) < get_kind c")
      case True
      then show ?thesis by (rule get_kind_less_imp_Less)
    next
      case False
      with Less_imp_get_kind_le[OF ab] Less_imp_get_kind_le[OF bc]
      have "get_kind b = 3" "get_kind c = 3" by simp_all
      then obtain c2 m2 c3 m3 where b: "b = EMul c2 m2" and c: "c = EMul c3 m3"
        by (cases b; cases c) auto
      let ?cmp = "\<lambda>p q. if Less (fst p) (fst q) then True
                    else if Less (fst q) (fst p) then False
                    else Less (snd p) (snd q)"
      have cmp: "\<And>p q. ?cmp p q \<longleftrightarrow>
                   Less (fst p) (fst q) \<or> (fst p = fst q \<and> Less (snd p) (snd q))"
        by (rule cmp_iff)
      from ab have "c1 < c2 \<or> (\<not> c2 < c1 \<and> lexicographical_compare ?cmp m1 m2)"
        unfolding b Less.simps if_chain_iff .
      then have 1: "c1 < c2 \<or> (c1 = c2 \<and> lexicographical_compare ?cmp m1 m2)"
        by (cases "c1 < c2") simp_all
      from bc have "c2 < c3 \<or> (\<not> c3 < c2 \<and> lexicographical_compare ?cmp m2 m3)"
        unfolding b c Less.simps if_chain_iff .
      then have 2: "c2 < c3 \<or> (c2 = c3 \<and> lexicographical_compare ?cmp m2 m3)"
        by (cases "c2 < c3") simp_all
      have tr: "lexicographical_compare ?cmp m1 m2 \<Longrightarrow> lexicographical_compare ?cmp m2 m3 \<Longrightarrow>
                lexicographical_compare ?cmp m1 m3"
      proof (rule lex_trans[where lt = ?cmp and ys = m2])
        fix p q r assume p: "p \<in> set m1" and pq: "?cmp p q" and qr: "?cmp q r"
        have "fst p \<in> Basic_BNFs.fsts p" "snd p \<in> Basic_BNFs.snds p" by (cases p; simp)+
        with p EMul have IH: "\<And>b c. Less (fst p) b \<Longrightarrow> Less b c \<Longrightarrow> Less (fst p) c"
          and IH2: "\<And>b c. Less (snd p) b \<Longrightarrow> Less b c \<Longrightarrow> Less (snd p) c" by blast+
        from pq qr have "Less (fst p) (fst r) \<or> (fst p = fst r \<and> Less (snd p) (snd r))"
          unfolding cmp using IH IH2 by metis
        then show "?cmp p r" unfolding cmp .
      next
        fix p q :: "Expression \<times> Expression" assume "\<not> ?cmp p q" "\<not> ?cmp q p"
        then show "p = q" unfolding cmp
          using Less_total[of "fst p" "fst q"] Less_total[of "snd p" "snd q"]
          by (auto simp: prod_eq_iff)
      next
        fix p :: "Expression \<times> Expression" show "\<not> ?cmp p p" using Less_irrefl by simp
      qed
      from 1 2 tr have "c1 < c3 \<or> (c1 = c3 \<and> lexicographical_compare ?cmp m1 m3)"
        by (elim disjE conjE) simp_all
      then have "c1 < c3 \<or> (\<not> c3 < c1 \<and> lexicographical_compare ?cmp m1 m3)"
        by (elim disjE conjE) simp_all
      then show ?thesis unfolding c Less.simps if_chain_iff .
    qed
  qed
next
  case (EPow b1 x1)
  show ?case
  proof (intro allI impI)
    fix b c assume ab: "Less (EPow b1 x1) b" and bc: "Less b c"
    show "Less (EPow b1 x1) c"
    proof (cases "get_kind (EPow b1 x1) < get_kind c")
      case True
      then show ?thesis by (rule get_kind_less_imp_Less)
    next
      case False
      with Less_imp_get_kind_le[OF ab] Less_imp_get_kind_le[OF bc]
      have "get_kind b = 9" "get_kind c = 9" by simp_all
      then obtain b2 x2 b3 x3 where b: "b = EPow b2 x2" and c: "c = EPow b3 x3"
        by (cases b; cases c) auto
      from ab have 1: "Less b1 b2 \<or> (b1 = b2 \<and> Less x1 x2)"
        unfolding b using Less_total[of b1 b2] by (auto split: if_splits)
      from bc have 2: "Less b2 b3 \<or> (b2 = b3 \<and> Less x2 x3)"
        unfolding b c using Less_total[of b2 b3] by (auto split: if_splits)
      from 1 2 EPow have "Less b1 b3 \<or> (b1 = b3 \<and> Less x1 x3)" by metis
      then show ?thesis unfolding c using Less_irrefl by auto
    qed
  qed
next
  case (ENonPoly k1 a1)
  show ?case
  proof (intro allI impI)
    fix b c assume ab: "Less (ENonPoly k1 a1) b" and bc: "Less b c"
    show "Less (ENonPoly k1 a1) c"
    proof (cases "get_kind (ENonPoly k1 a1) < get_kind c")
      case True
      then show ?thesis by (rule get_kind_less_imp_Less)
    next
      case False
      with Less_imp_get_kind_le[OF ab] Less_imp_get_kind_le[OF bc]
      have "get_kind b = kind_rank k1" "get_kind c = kind_rank k1" by simp_all
      then obtain k2 a2 k3 a3 where b: "b = ENonPoly k2 a2" and c: "c = ENonPoly k3 a3"
        and r: "kind_rank k2 = kind_rank k1" "kind_rank k3 = kind_rank k1"
        by (cases b; cases c) auto
      let ?n = "lexicographical_compare char_less"
      have ntot: "\<And>k k'. kind_rank k = kind_rank k' \<Longrightarrow> \<not> ?n (name_of k) (name_of k') \<Longrightarrow>
                     \<not> ?n (name_of k') (name_of k) \<Longrightarrow> k = k'"
      proof -
        fix k k' assume rk: "kind_rank k = kind_rank k'"
          and "\<not> ?n (name_of k) (name_of k')" "\<not> ?n (name_of k') (name_of k)"
        then have "name_of k = name_of k'"
          by (intro lex_total[where lt = char_less]) (auto intro: char_less_total)
        with rk show "k = k'" by (rule kind_rank_name_inj)
      qed
      have nirr: "\<And>k. \<not> ?n (name_of k) (name_of k)"
        by (rule lex_irrefl) (rule char_less_irrefl)
      from ab r have 1: "?n (name_of k1) (name_of k2) \<or> (k1 = k2 \<and> lexicographical_compare Less a1 a2)"
        unfolding b using ntot[of k1 k2] by (auto split: if_splits)
      from bc r have 2: "?n (name_of k2) (name_of k3) \<or> (k2 = k3 \<and> lexicographical_compare Less a2 a3)"
        unfolding b c using ntot[of k2 k3] by (auto split: if_splits)
      have ntr: "?n (name_of k1) (name_of k2) \<Longrightarrow> ?n (name_of k2) (name_of k3) \<Longrightarrow>
                 ?n (name_of k1) (name_of k3)"
        by (rule lex_trans[where lt = char_less and ys = "name_of k2"])
           (auto intro: char_less_trans char_less_total simp: char_less_irrefl)
      have tr: "lexicographical_compare Less a1 a2 \<Longrightarrow> lexicographical_compare Less a2 a3 \<Longrightarrow>
                lexicographical_compare Less a1 a3"
        by (rule lex_trans[where lt = Less and ys = a2])
           (use ENonPoly Less_total Less_irrefl in blast)+
      from 1 2 ntr tr have "?n (name_of k1) (name_of k3) \<or>
            (k1 = k3 \<and> lexicographical_compare Less a1 a3)"
        by auto
      then show ?thesis unfolding c using r nirr by auto
    qed
  qed
qed

lemma Less_trans: "Less a b \<Longrightarrow> Less b c \<Longrightarrow> Less a c"
  using Less_trans_aux by blast

lemma Less_asym: "Less a b \<Longrightarrow> \<not> Less b a"
  using Less_trans[of a b a] Less_irrefl[of a] by blast

section \<open>Expression algebra\<close>

text \<open>
  Modelled from the spec: the predicates and arithmetic of the expression algebra
  (\<^verbatim>\<open>is_constant\<close>, \<^verbatim>\<open>is_zero\<close>, \<^verbatim>\<open>is_one\<close>, \<^verbatim>\<open>operator+\<close>, \<^verbatim>\<open>operator*\<close>,
  \<^verbatim>\<open>pow\<close>), which are not part of \<^verbatim>\<open>decompose.cc\<close>.  Zero and one are detected
  structurally.  Sum and product return a node of the data model with the
  simplifications on which the factorizer relies: \<open>0 + e = e\<close>, \<open>1 * e = e\<close>,
  \<open>0 * e = 0\<close>, constants are folded, a constant factor becomes the constant of the
  product node, and the map of a new node has its keys in order and without duplicates.
  The further rewriting of the library (flattening of nested sums and products, merging
  of equal terms) is not modelled.
\<close>

definition is_constant :: "Expression \<Rightarrow> bool" where
  "is_constant e = (case e of EConstant v \<Rightarrow> True | _ \<Rightarrow> False)"

definition get_constant_value :: "Expression \<Rightarrow> real" where
  "get_constant_value e = (case e of EConstant v \<Rightarrow> v | _ \<Rightarrow> 0)"

definition is_zero :: "Expression \<Rightarrow> bool" where
  "is_zero e = (e = EConstant 0)"

definition is_one :: "Expression \<Rightarrow> bool" where
  "is_one e = (e = EConstant 1)"

definition Expression_plus :: "Expression \<Rightarrow> Expression \<Rightarrow> Expression" where
  "Expression_plus a b =
     (if is_zero a then b
      else if is_zero b then a
      else if is_constant a \<and> is_constant b
        then EConstant (get_constant_value a + get_constant_value b)
      else if a = b then EAdd 0 [(a, 2)]
      else if Less a b then EAdd 0 [(a, 1), (b, 1)]
      else EAdd 0 [(b, 1), (a, 1)])"

definition Expression_times :: "Expression \<Rightarrow> Expression \<Rightarrow> Expression" where
  "Expression_times a b =
     (if is_one a then b
      else if is_one b then a
      else if is_zero a \<or> is_zero b then EConstant 0
      else if is_constant a \<and> is_constant b
        then EConstant (get_constant_value a * get_constant_value b)
      else if is_constant a then EMul (get_constant_value a) [(b, EConstant 1)]
      else if is_constant b then EMul (get_constant_value b) [(a, EConstant 1)]
      else if a = b then EMul 1 [(a, EConstant 2)]
      else if Less a b then EMul 1 [(a, EConstant 1), (b, EConstant 1)]
      else EMul 1 [(b, EConstant 1), (a, EConstant 1)])"

definition Expression_pow :: "Expression \<Rightarrow> Expression \<Rightarrow> Expression" where
  "Expression_pow base exponent = EPow base exponent"

text \<open>
  The value of an expression under an assignment of the variables.  The opaque
  operators are interpreted by an arbitrary function \<open>I\<close>; a power with an integral
  exponent is the integer power, any other power is \<open>powr\<close>.
\<close>

definition pow_value :: "real \<Rightarrow> real \<Rightarrow> real" where
  "pow_value b x = (if x = of_int \<lfloor>x\<rfloor> then b powi \<lfloor>x\<rfloor> else b powr x)"

fun eval :: "(Kind \<Rightarrow> real list \<Rightarrow> real) \<Rightarrow> (Variable \<Rightarrow> real) \<Rightarrow> Expression \<Rightarrow> real" where
  "eval I env (EConstant c) = c"
| "eval I env (EVar v) = env v"
| "eval I env (EAdd c ts) = c + (\<Sum>p\<leftarrow>ts. snd p * eval I env (fst p))"
| "eval I env (EMul c fs) =
     c * (\<Prod>p\<leftarrow>fs. pow_value (eval I env (fst p)) (eval I env (snd p)))"
| "eval I env (EPow b x) = pow_value (eval I env b) (eval I env x)"
| "eval I env (ENonPoly k args) = I k (map (eval I env) args)"

text \<open>
  \<^verbatim>\<open>std::map<Expression, V>\<close> is the list of its entries in key order.
  \<^verbatim>\<open>emplace\<close> inserts a new entry unless an equivalent key is present;
  \<open>map_update\<close> is the assignment through the iterator that \<^verbatim>\<open>emplace\<close> returns.
\<close>

fun map_emplace :: "Expression \<Rightarrow> 'v \<Rightarrow> (Expression \<times> 'v) list \<Rightarrow> (Expression \<times> 'v) list" where
  "map_emplace k v [] = [(k, v)]"
| "map_emplace k v ((k', v') # m) =
     (if Less k k' then (k, v) # (k', v') # m
      else if Less k' k then (k', v') # map_emplace k v m
      else (k', v') # m)"

fun map_update :: "Expression \<Rightarrow> ('v \<Rightarrow> 'v) \<Rightarrow> (Expression \<times> 'v) list \<Rightarrow> (Expression \<times> 'v) list" where
  "map_update k f [] = []"
| "map_update k f ((k', v') # m) =
     (if Less k k' \<or> Less k' k then (k', v') # map_update k f m else (k', f v') # m)"

section \<open>Lumped-parameter factorizer\<close>

text \<open>
  Modelled from the spec: the operations of \<^verbatim>\<open>Variables\<close> (construction from a vector,
  \<^verbatim>\<open>include\<close>, \<^verbatim>\<open>IsSubsetOf\<close>, \<^verbatim>\<open>intersect\<close>) and the accessors
  \<^verbatim>\<open>get_variable\<close> and \<^verbatim>\<open>get_second_argument\<close>, which are called only on a node of
  the matching kind.
\<close>

type_synonym LumpedFactorization = "Expression list \<times> Expression list \<times> Expression"

definition Variables_of :: "Variable list \<Rightarrow> Variables" where
  "Variables_of vars = sort_key get_id (remdups vars)"

definition Variables_include :: "Variables \<Rightarrow> Variable \<Rightarrow> bool" where
  "Variables_include vars v = (v \<in> set vars)"

definition IsSubsetOf :: "Variables \<Rightarrow> Variables \<Rightarrow> bool" where
  "IsSubsetOf a b = (set a \<subseteq> set b)"

definition intersect :: "Variables \<Rightarrow> Variables \<Rightarrow> Variables" where
  "intersect a b = filter (\<lambda>v. v \<in> set b) a"

primrec get_variable :: "Expression \<Rightarrow> Variable" where
  "get_variable (EVar v) = v"

primrec get_second_argument :: "Expression \<Rightarrow> Expression" where
  "get_second_argument (EPow b x) = x"

text \<open>The visitor methods (lines 429-446 and 537-579).\<close>

definition VisitVariable :: "Expression \<Rightarrow> Variables \<Rightarrow> error + LumpedFactorization" where
  "VisitVariable e parameters =
     (let var = get_variable e
      in if Variables_include parameters var
         then Inr ([EConstant 1], [e], EConstant 0)
         else Inr ([], [], e))"

definition VisitConstant :: "Expression \<Rightarrow> Variables \<Rightarrow> error + LumpedFactorization" where
  "VisitConstant e parameters = Inr ([], [], e)"

definition VisitPow :: "Expression \<Rightarrow> Variables \<Rightarrow> error + LumpedFactorization" where
  "VisitPow e parameters =
     (let exponent = get_second_argument e;
          vars = GetVariables e
      in if IsSubsetOf vars parameters then Inr ([EConstant 1], [e], EConstant 0)
         else if intersect vars parameters = [] then Inr ([], [], e)
         else if is_constant exponent then Inl (UnsupportedMixedPower e)
         else Inl (NonSeparablePower e))"

definition VisitNonPolynomialTerm :: "Expression \<Rightarrow> Variables \<Rightarrow> error + LumpedFactorization" where
  "VisitNonPolynomialTerm e parameters =
     (let vars = GetVariables e
      in if IsSubsetOf vars parameters then Inr ([EConstant 1], [e], EConstant 0)
         else if intersect vars parameters = [] then Inr ([], [], e)
         else Inl (NonSeparableNonlinearTerm e))"

text \<open>
  \<^verbatim>\<open>SimpleMultiplication\<close> (lines 482-514).  The head of \<open>w\<close> receives the entries
  \<open>w_a[i] * w_b[j]\<close> of the outer product, the next segment \<open>w0_a * w_b\<close> and the tail
  \<open>w0_b * w_a\<close>, the last two only when the constant is not structurally zero.  The
  outer product is listed row by row; \<^verbatim>\<open>VisitMultiplication\<close> passes the factorization
  of one factor as \<open>b\<close>, which for an expanded product has at most one entry.
\<close>

definition outer_product :: "Expression list \<Rightarrow> Expression list \<Rightarrow> Expression list" where
  "outer_product a b = concat (map (\<lambda>x. map (Expression_times x) b) a)"

definition SimpleMultiplication ::
  "LumpedFactorization \<Rightarrow> LumpedFactorization \<Rightarrow> LumpedFactorization" where
  "SimpleMultiplication a b =
     (case a of (w_a, alpha_a, w0_a) \<Rightarrow> case b of (w_b, alpha_b, w0_b) \<Rightarrow>
        let nonzero_w0a = \<not> is_zero w0_a;
            nonzero_w0b = \<not> is_zero w0_b;
            w0 = Expression_times w0_a w0_b
        in (outer_product w_a w_b
              @ (if nonzero_w0a then map (Expression_times w0_a) w_b else [])
              @ (if nonzero_w0b then map (Expression_times w0_b) w_a else []),
            outer_product alpha_a alpha_b
              @ (if nonzero_w0a then alpha_b else [])
              @ (if nonzero_w0b then alpha_a else []),
            w0))"

text \<open>
  \<^verbatim>\<open>VisitAddition\<close> (lines 448-479): the body of the loop once \<open>e\<^sub>i\<close> has been
  visited.  The dictionary \<open>w_map\<close> is keyed by the weight \<open>c\<^sub>i * w\<^sub>i[j]\<close>.
\<close>

definition addition_step ::
  "real \<Rightarrow> LumpedFactorization \<Rightarrow> Expression \<times> (Expression \<times> Expression) list
     \<Rightarrow> Expression \<times> (Expression \<times> Expression) list" where
  "addition_step c_i r s =
     (case r of (w_i, alpha_i, w0_i) \<Rightarrow> case s of (w0, w_map) \<Rightarrow>
        (Expression_plus w0 (Expression_times (EConstant c_i) w0_i),
         fold (\<lambda>(w_ij, alpha_ij) m.
                 map_update (Expression_times (EConstant c_i) w_ij)
                   (\<lambda>second. Expression_plus second alpha_ij)
                   (map_emplace (Expression_times (EConstant c_i) w_ij) (EConstant 0) m))
              (zip w_i alpha_i) w_map))"

text \<open>
  \<^verbatim>\<open>Visit\<close> dispatches on the kind of the node (\<^verbatim>\<open>VisitExpression\<close>).  An exception
  raised while a term or a factor is visited ends the loop and is the result.
\<close>

fun Visit :: "Variables \<Rightarrow> Expression \<Rightarrow> error + LumpedFactorization" where
  "Visit parameters (EConstant c) = VisitConstant (EConstant c) parameters"
| "Visit parameters (EVar v) = VisitVariable (EVar v) parameters"
| "Visit parameters (EAdd c0 ts) =
     (case fold (\<lambda>p acc. case acc of Inl err \<Rightarrow> Inl err
                   | Inr s \<Rightarrow> (case Visit parameters (fst p) of Inl err \<Rightarrow> Inl err
                               | Inr r \<Rightarrow> Inr (addition_step (snd p) r s)))
                ts (Inr (EConstant c0, []))
      of Inl err \<Rightarrow> Inl err
       | Inr (w0, w_map) \<Rightarrow> Inr (map fst w_map, map snd w_map, w0))"
| "Visit parameters (EMul c fs) =
     fold (\<lambda>p acc. case acc of Inl err \<Rightarrow> Inl err
             | Inr f \<Rightarrow>
                 (case (if is_one (snd p) then Visit parameters (fst p)
                        else VisitPow (Expression_pow (fst p) (snd p)) parameters)
                  of Inl err \<Rightarrow> Inl err
                   | Inr r \<Rightarrow> Inr (SimpleMultiplication f r)))
          fs (Inr ([], [], EConstant c))"
| "Visit parameters (EPow b x) = VisitPow (EPow b x) parameters"
| "Visit parameters (ENonPoly k args) = VisitNonPolynomialTerm (ENonPoly k args) parameters"

text \<open>
  \<^verbatim>\<open>Decompose\<close> (lines 417-421) expands the expression first.  The expansion of the
  algebra is not part of \<^verbatim>\<open>decompose.cc\<close>; it is a parameter here.
\<close>

definition Decompose ::
  "(Expression \<Rightarrow> Expression) \<Rightarrow> Expression \<Rightarrow> Variables \<Rightarrow> error + LumpedFactorization" where
  "Decompose Expand e parameters = Visit parameters (Expand e)"

text \<open>
  \<^verbatim>\<open>DecomposeLumpedParameters\<close> (lines 676-705).  The dictionary \<open>alpha_map\<close> is keyed
  by the parameter expression; its value is a column of \<open>W\<close>.  \<open>W\<close> is returned as
  the list of its rows.
\<close>

definition row_step ::
  "nat \<Rightarrow> nat \<Rightarrow> LumpedFactorization \<Rightarrow> Expression list \<times> (Expression \<times> Expression list) list
     \<Rightarrow> Expression list \<times> (Expression \<times> Expression list) list" where
  "row_step n i r s =
     (case r of (w, alpha, this_w0) \<Rightarrow> case s of (w0, alpha_map) \<Rightarrow>
        (w0[i := this_w0],
         fold (\<lambda>(w_j, alpha_j) m.
                 map_update alpha_j (\<lambda>second. second[i := Expression_plus (second ! i) w_j])
                   (map_emplace alpha_j (replicate n (EConstant 0)) m))
              (zip w alpha) alpha_map))"

definition DecomposeLumpedParameters ::
  "(Expression \<Rightarrow> Expression) \<Rightarrow> Expression list \<Rightarrow> Variable list
     \<Rightarrow> error + Expression list list \<times> Expression list \<times> Expression list" where
  "DecomposeLumpedParameters Expand f parameters =
     (case fold (\<lambda>i acc. case acc of Inl err \<Rightarrow> Inl err
                   | Inr s \<Rightarrow> (case Decompose Expand (f ! i) (Variables_of parameters) of
                                 Inl err \<Rightarrow> Inl err
                               | Inr r \<Rightarrow> Inr (row_step (length f) i r s)))
                [0..<length f] (Inr (replicate (length f) (EConstant 0), []))
      of Inl err \<Rightarrow> Inl err
       | Inr (w0, alpha_map) \<Rightarrow>
           Inr (map (\<lambda>i. map (\<lambda>(key, val). val ! i) alpha_map) [0..<length f],
                map fst alpha_map, w0))"

subsection \<open>The value of a factorization\<close>

lemma is_constant_iff: "is_constant e \<longleftrightarrow> (\<exists>v. e = EConstant v)"
  by (cases e) (simp_all add: is_constant_def)

lemma pow_value_one [simp]: "pow_value b 1 = b"
  by (simp add: pow_value_def)

lemma pow_value_two [simp]: "pow_value b 2 = b * b"
  by (simp add: pow_value_def power2_eq_square)

lemma eval_Expression_plus [simp]:
  "eval I env (Expression_plus a b) = eval I env a + eval I env b"
  by (auto simp: Expression_plus_def is_zero_def is_constant_iff get_constant_value_def)

lemma eval_Expression_times [simp]:
  "eval I env (Expression_times a b) = eval I env a * eval I env b"
  by (auto simp: Expression_times_def is_zero_def is_one_def is_constant_iff get_constant_value_def)

lemma eval_Expression_pow [simp]:
  "eval I env (Expression_pow b x) = pow_value (eval I env b) (eval I env x)"
  by (simp add: Expression_pow_def)

text \<open>
  The value \<open>\<Sum>\<^sub>i W\<^sub>i * \<alpha>\<^sub>i\<close> of a list of weights paired with a list of basis
  expressions, and the value \<open>\<Sum>\<^sub>i W\<^sub>i * \<alpha>\<^sub>i + w0\<close> of a factorization.
\<close>

definition weighted_sum ::
  "(Kind \<Rightarrow> real list \<Rightarrow> real) \<Rightarrow> (Variable \<Rightarrow> real) \<Rightarrow> Expression list \<Rightarrow> Expression list \<Rightarrow> real" where
  "weighted_sum I env W \<alpha> = (\<Sum>p\<leftarrow>zip W \<alpha>. eval I env (fst p) * eval I env (snd p))"

definition lumped_value ::
  "(Kind \<Rightarrow> real list \<Rightarrow> real) \<Rightarrow> (Variable \<Rightarrow> real) \<Rightarrow> LumpedFactorization \<Rightarrow> real" where
  "lumped_value I env r = (case r of (W, \<alpha>, w0) \<Rightarrow> weighted_sum I env W \<alpha> + eval I env w0)"

lemma weighted_sum_Nil [simp]: "weighted_sum I env [] ys = 0" "weighted_sum I env xs [] = 0"
  by (simp_all add: weighted_sum_def)

lemma weighted_sum_Cons [simp]:
  "weighted_sum I env (x # xs) (y # ys) = eval I env x * eval I env y + weighted_sum I env xs ys"
  by (simp add: weighted_sum_def)

lemma weighted_sum_append:
  "length xs = length ys \<Longrightarrow>
   weighted_sum I env (xs @ xs') (ys @ ys') = weighted_sum I env xs ys + weighted_sum I env xs' ys'"
  by (simp add: weighted_sum_def)

lemma weighted_sum_map_times:
  "weighted_sum I env (map (Expression_times c) xs) ys = eval I env c * weighted_sum I env xs ys"
  by (induction xs ys rule: list_induct2') (simp_all add: algebra_simps)

lemma weighted_sum_map_times2:
  "weighted_sum I env (map (Expression_times c) xs) (map (Expression_times d) ys)
   = eval I env c * eval I env d * weighted_sum I env xs ys"
  by (induction xs ys rule: list_induct2') (simp_all add: algebra_simps)

lemma length_outer_product: "length (outer_product a b) = length a * length b"
  by (induction a) (simp_all add: outer_product_def)

lemma outer_product_Cons:
  "outer_product (x # a) b = map (Expression_times x) b @ outer_product a b"
  by (simp add: outer_product_def)

lemma weighted_sum_outer_product:
  "length wa = length aa \<Longrightarrow> length wb = length ab \<Longrightarrow>
   weighted_sum I env (outer_product wa wb) (outer_product aa ab)
   = weighted_sum I env wa aa * weighted_sum I env wb ab"
proof (induction wa aa rule: list_induct2)
  case Nil
  then show ?case by (simp add: outer_product_def)
next
  case (Cons x xs y ys)
  then show ?case
    by (simp add: outer_product_Cons weighted_sum_append weighted_sum_map_times2 algebra_simps)
qed

lemma SimpleMultiplication_value:
  assumes "length wa = length aa" "length wb = length ab"
  shows "lumped_value I env (SimpleMultiplication (wa, aa, w0a) (wb, ab, w0b))
         = lumped_value I env (wa, aa, w0a) * lumped_value I env (wb, ab, w0b)"
proof -
  have l: "length (outer_product wa wb) = length (outer_product aa ab)"
    using assms by (simp add: length_outer_product)
  have za: "is_zero w0a \<Longrightarrow> eval I env w0a = 0" and zb: "is_zero w0b \<Longrightarrow> eval I env w0b = 0"
    by (simp_all add: is_zero_def)
  show ?thesis
    using assms l za zb
    by (simp add: SimpleMultiplication_def lumped_value_def Let_def weighted_sum_append
        weighted_sum_outer_product weighted_sum_map_times algebra_simps)
qed

lemma SimpleMultiplication_length:
  assumes "length wa = length aa" "length wb = length ab"
    and "SimpleMultiplication (wa, aa, w0a) (wb, ab, w0b) = (w, a, w0)"
  shows "length w = length a"
  using assms by (auto simp: SimpleMultiplication_def Let_def length_outer_product)

definition msum ::
  "(Kind \<Rightarrow> real list \<Rightarrow> real) \<Rightarrow> (Variable \<Rightarrow> real) \<Rightarrow> (Expression \<times> Expression) list \<Rightarrow> real" where
  "msum I env m = (\<Sum>p\<leftarrow>m. eval I env (fst p) * eval I env (snd p))"

lemma weighted_sum_map_fst_snd: "weighted_sum I env (map fst m) (map snd m) = msum I env m"
  by (simp add: weighted_sum_def msum_def zip_map_fst_snd)

lemma msum_emplace_update:
  "msum I env (map_update k (\<lambda>second. Expression_plus second a) (map_emplace k (EConstant 0) m))
   = msum I env m + eval I env k * eval I env a"
proof (induction m)
  case Nil
  then show ?case using Less_irrefl[of k] by (simp add: msum_def)
next
  case (Cons e m)
  obtain k' v' where e: "e = (k', v')" by (cases e)
  consider (lt) "Less k k'" | (gt) "\<not> Less k k'" "Less k' k" | (eq) "\<not> Less k k'" "\<not> Less k' k"
    by blast
  then show ?case
  proof cases
    case lt
    then show ?thesis unfolding e using Less_irrefl[of k] by (simp add: msum_def)
  next
    case gt
    then show ?thesis unfolding e using Cons.IH by (simp add: msum_def)
  next
    case eq
    then have "k = k'" by (rule Less_total)
    with eq show ?thesis unfolding e by (simp add: msum_def algebra_simps)
  qed
qed

lemma msum_fold_emplace_update:
  "msum I env (fold (\<lambda>(w_ij, alpha_ij) m.
                 map_update (Expression_times c w_ij)
                   (\<lambda>second. Expression_plus second alpha_ij)
                   (map_emplace (Expression_times c w_ij) (EConstant 0) m)) zs m)
   = msum I env m
     + eval I env c * (\<Sum>p\<leftarrow>zs. eval I env (fst p) * eval I env (snd p))"
proof (induction zs arbitrary: m)
  case Nil
  then show ?case by simp
next
  case (Cons z zs)
  obtain w a where z: "z = (w, a)" by (cases z)
  show ?case unfolding z
    by (simp add: Cons.IH msum_emplace_update algebra_simps)
qed

lemma addition_step_value:
  assumes "addition_step c (w_i, alpha_i, w0_i) (w0, wm) = (w0', wm')"
  shows "eval I env w0' + msum I env wm'
         = eval I env w0 + msum I env wm + c * lumped_value I env (w_i, alpha_i, w0_i)"
  using assms
  by (auto simp: addition_step_def msum_fold_emplace_update lumped_value_def weighted_sum_def
      algebra_simps)

text \<open>A factorization pairs its weights with its basis expressions one to one.\<close>

definition good :: "LumpedFactorization \<Rightarrow> bool" where
  "good r = (case r of (W, \<alpha>, w0) \<Rightarrow> length W = length \<alpha>)"

lemma fold_Inl:
  "fold (\<lambda>p acc. case acc of Inl err \<Rightarrow> Inl err | Inr s \<Rightarrow> f p s) xs (Inl e) = Inl e"
  by (induction xs) simp_all

lemma fold_addition_value:
  assumes IH: "\<And>p r. p \<in> set ts \<Longrightarrow> Visit P (fst p) = Inr r \<Longrightarrow>
                 lumped_value I env r = eval I env (fst p)"
  shows "fold (\<lambda>p acc. case acc of Inl err \<Rightarrow> Inl err
                   | Inr s \<Rightarrow> (case Visit P (fst p) of Inl err \<Rightarrow> Inl err
                               | Inr r \<Rightarrow> Inr (addition_step (snd p) r s)))
                ts (Inr s) = Inr s' \<Longrightarrow>
         eval I env (fst s') + msum I env (snd s')
         = eval I env (fst s) + msum I env (snd s) + (\<Sum>p\<leftarrow>ts. snd p * eval I env (fst p))"
  using IH
proof (induction ts arbitrary: s)
  case Nil
  then show ?case by simp
next
  case (Cons t ts)
  show ?case
  proof (cases "Visit P (fst t)")
    case (Inl err)
    with Cons.prems(1) show ?thesis by (simp add: fold_Inl)
  next
    case (Inr r)
    let ?s1 = "addition_step (snd t) r s"
    from Cons.prems(1) Inr have f: "fold (\<lambda>p acc. case acc of Inl err \<Rightarrow> Inl err
                   | Inr s \<Rightarrow> (case Visit P (fst p) of Inl err \<Rightarrow> Inl err
                               | Inr r \<Rightarrow> Inr (addition_step (snd p) r s)))
                ts (Inr ?s1) = Inr s'" by simp
    have v: "lumped_value I env r = eval I env (fst t)"
      using Cons.prems(2)[of t r] Inr by simp
    have "eval I env (fst ?s1) + msum I env (snd ?s1)
          = eval I env (fst s) + msum I env (snd s) + snd t * lumped_value I env r"
      using addition_step_value[of "snd t" "fst r" "fst (snd r)" "snd (snd r)" "fst s" "snd s"
          "fst ?s1" "snd ?s1" I env] by simp
    moreover have "eval I env (fst s') + msum I env (snd s')
         = eval I env (fst ?s1) + msum I env (snd ?s1) + (\<Sum>p\<leftarrow>ts. snd p * eval I env (fst p))"
      by (rule Cons.IH[OF f]) (use Cons.prems(2) in auto)
    ultimately show ?thesis using v by simp
  qed
qed

lemma VisitPow_value:
  "VisitPow (EPow b x) P = Inr r \<Longrightarrow>
     good r \<and> lumped_value I env r = pow_value (eval I env b) (eval I env x)"
  by (auto simp: VisitPow_def Let_def good_def lumped_value_def split: if_splits)

lemma VisitNonPolynomialTerm_value:
  "VisitNonPolynomialTerm e P = Inr r \<Longrightarrow> good r \<and> lumped_value I env r = eval I env e"
  by (auto simp: VisitNonPolynomialTerm_def Let_def good_def lumped_value_def split: if_splits)

lemma SimpleMultiplication_good_value:
  assumes "good a" "good b"
  shows "good (SimpleMultiplication a b) \<and>
         lumped_value I env (SimpleMultiplication a b) = lumped_value I env a * lumped_value I env b"
proof -
  obtain wa aa w0a where a: "a = (wa, aa, w0a)" by (cases a)
  obtain wb ab w0b where b: "b = (wb, ab, w0b)" by (cases b)
  obtain w al w0 where r: "SimpleMultiplication (wa, aa, w0a) (wb, ab, w0b) = (w, al, w0)"
    by (cases "SimpleMultiplication (wa, aa, w0a) (wb, ab, w0b)")
  from assms have l: "length wa = length aa" "length wb = length ab"
    unfolding a b good_def by simp_all
  from SimpleMultiplication_length[OF l r] have "good (SimpleMultiplication a b)"
    unfolding a b r good_def by simp
  with SimpleMultiplication_value[OF l] show ?thesis unfolding a b by simp
qed

lemma fold_multiplication_value:
  assumes IH: "\<And>p r. p \<in> set fs \<Longrightarrow> is_one (snd p) \<Longrightarrow> Visit P (fst p) = Inr r \<Longrightarrow>
                 good r \<and> lumped_value I env r = eval I env (fst p)"
  shows "fold (\<lambda>p acc. case acc of Inl err \<Rightarrow> Inl err
             | Inr f \<Rightarrow>
                 (case (if is_one (snd p) then Visit P (fst p)
                        else VisitPow (Expression_pow (fst p) (snd p)) P)
                  of Inl err \<Rightarrow> Inl err
                   | Inr r \<Rightarrow> Inr (SimpleMultiplication f r)))
          fs (Inr f) = Inr f' \<Longrightarrow> good f \<Longrightarrow>
         good f' \<and>
         lumped_value I env f'
         = lumped_value I env f
           * (\<Prod>p\<leftarrow>fs. pow_value (eval I env (fst p)) (eval I env (snd p)))"
  using IH
proof (induction fs arbitrary: f)
  case Nil
  then show ?case by simp
next
  case (Cons t fs)
  let ?v = "if is_one (snd t) then Visit P (fst t)
            else VisitPow (Expression_pow (fst t) (snd t)) P"
  show ?case
  proof (cases ?v)
    case (Inl err)
    with Cons.prems(1) show ?thesis by (simp add: fold_Inl)
  next
    case (Inr r)
    have gr: "good r \<and> lumped_value I env r = pow_value (eval I env (fst t)) (eval I env (snd t))"
    proof (cases "is_one (snd t)")
      case True
      with Inr have "Visit P (fst t) = Inr r" by simp
      from Cons.prems(3)[OF _ True this] True show ?thesis by (simp add: is_one_def)
    next
      case False
      with Inr have "VisitPow (EPow (fst t) (snd t)) P = Inr r" by (simp add: Expression_pow_def)
      then show ?thesis by (rule VisitPow_value)
    qed
    let ?f1 = "SimpleMultiplication f r"
    from Cons.prems(1) Inr have f: "fold (\<lambda>p acc. case acc of Inl err \<Rightarrow> Inl err
             | Inr f \<Rightarrow>
                 (case (if is_one (snd p) then Visit P (fst p)
                        else VisitPow (Expression_pow (fst p) (snd p)) P)
                  of Inl err \<Rightarrow> Inl err
                   | Inr r \<Rightarrow> Inr (SimpleMultiplication f r)))
          fs (Inr ?f1) = Inr f'" by simp
    note S = SimpleMultiplication_good_value[OF Cons.prems(2) conjunct1[OF gr], of I env]
    have "good f' \<and> lumped_value I env f'
         = lumped_value I env ?f1
           * (\<Prod>p\<leftarrow>fs. pow_value (eval I env (fst p)) (eval I env (snd p)))"
    proof (rule Cons.IH[OF f])
      show "good ?f1" using S by simp
    next
      fix p r' assume "p \<in> set fs" "is_one (snd p)" "Visit P (fst p) = Inr r'"
      then show "good r' \<and> lumped_value I env r' = eval I env (fst p)"
        using Cons.prems(3)[of p r'] by simp
    qed
    with S gr show ?thesis by (simp add: algebra_simps)
  qed
qed

lemma Visit_value:
  "Visit P e = Inr r \<Longrightarrow> good r \<and> lumped_value I env r = eval I env e"
proof (induction P e arbitrary: r rule: Visit.induct)
  case (1 parameters c)
  then show ?case by (auto simp: VisitConstant_def good_def lumped_value_def)
next
  case (2 parameters v)
  then show ?case
    by (auto simp: VisitVariable_def Let_def good_def lumped_value_def split: if_splits)
next
  case (3 parameters c0 ts)
  from "3.prems" obtain w0 wm where
    f: "fold (\<lambda>p acc. case acc of Inl err \<Rightarrow> Inl err
                   | Inr s \<Rightarrow> (case Visit parameters (fst p) of Inl err \<Rightarrow> Inl err
                               | Inr r \<Rightarrow> Inr (addition_step (snd p) r s)))
                ts (Inr (EConstant c0, [])) = Inr (w0, wm)"
    and r: "r = (map fst wm, map snd wm, w0)"
    by (auto split: sum.splits)
  have IH: "\<And>p r'. p \<in> set ts \<Longrightarrow> Visit parameters (fst p) = Inr r' \<Longrightarrow>
               lumped_value I env r' = eval I env (fst p)"
    using "3.IH" by blast
  from fold_addition_value[of ts parameters I env, OF IH f]
  have "eval I env w0 + msum I env wm = c0 + (\<Sum>p\<leftarrow>ts. snd p * eval I env (fst p))"
    by (simp add: msum_def)
  then show ?case unfolding r
    by (simp add: good_def lumped_value_def weighted_sum_map_fst_snd msum_def)
next
  case (4 parameters c fs)
  have "good r \<and> lumped_value I env r
         = lumped_value I env ([], [], EConstant c)
           * (\<Prod>p\<leftarrow>fs. pow_value (eval I env (fst p)) (eval I env (snd p)))"
  proof (rule fold_multiplication_value)
    show "fold (\<lambda>p acc. case acc of Inl err \<Rightarrow> Inl err
             | Inr f \<Rightarrow>
                 (case (if is_one (snd p) then Visit parameters (fst p)
                        else VisitPow (Expression_pow (fst p) (snd p)) parameters)
                  of Inl err \<Rightarrow> Inl err
                   | Inr r \<Rightarrow> Inr (SimpleMultiplication f r)))
          fs (Inr ([], [], EConstant c)) = Inr r" using "4.prems" by simp
    show "good ([], [], EConstant c)" by (simp add: good_def)
  next
    fix p r' assume "p \<in> set fs" "is_one (snd p)" "Visit parameters (fst p) = Inr r'"
    then show "good r' \<and> lumped_value I env r' = eval I env (fst p)"
      using "4.IH" by blast
  qed
  then show ?case by (simp add: lumped_value_def)
next
  case (5 parameters b x)
  then show ?case using VisitPow_value[of b x parameters r I env] by simp
next
  case (6 parameters k args)
  then show ?case by (simp add: VisitNonPolynomialTerm_value)
qed

subsection \<open>The vector driver\<close>

definition col_sum ::
  "(Kind \<Rightarrow> real list \<Rightarrow> real) \<Rightarrow> (Variable \<Rightarrow> real) \<Rightarrow> nat
     \<Rightarrow> (Expression \<times> Expression list) list \<Rightarrow> real" where
  "col_sum I env r m = (\<Sum>p\<leftarrow>m. eval I env (snd p ! r) * eval I env (fst p))"

definition cols_ok :: "nat \<Rightarrow> (Expression \<times> Expression list) list \<Rightarrow> bool" where
  "cols_ok n m = (\<forall>p \<in> set m. length (snd p) = n)"

lemma col_emplace_update:
  assumes "i < n" "cols_ok n m" and rn: "r < n"
  shows "cols_ok n (map_update k (\<lambda>second. second[i := Expression_plus (second ! i) w])
                     (map_emplace k (replicate n (EConstant 0)) m)) \<and>
         col_sum I env r (map_update k (\<lambda>second. second[i := Expression_plus (second ! i) w])
                     (map_emplace k (replicate n (EConstant 0)) m))
         = col_sum I env r m + (if r = i then eval I env w * eval I env k else 0)"
  using assms(2)
proof (induction m)
  case Nil
  then show ?case using Less_irrefl[of k] assms(1) rn
    by (auto simp: col_sum_def cols_ok_def nth_list_update)
next
  case (Cons e m)
  obtain k' v' where e: "e = (k', v')" by (cases e)
  from Cons.prems have lv: "length v' = n" and cm: "cols_ok n m"
    unfolding e cols_ok_def by simp_all
  consider (lt) "Less k k'" | (gt) "\<not> Less k k'" "Less k' k" | (eq) "\<not> Less k k'" "\<not> Less k' k"
    by blast
  then show ?case
  proof cases
    case lt
    then show ?thesis unfolding e using Less_irrefl[of k] assms(1) lv cm rn
      by (auto simp: col_sum_def cols_ok_def nth_list_update)
  next
    case gt
    then show ?thesis unfolding e using Cons.IH[OF cm] lv
      by (auto simp: col_sum_def cols_ok_def)
  next
    case eq
    then have "k = k'" by (rule Less_total)
    with eq show ?thesis unfolding e using assms(1) lv cm
      by (auto simp: col_sum_def cols_ok_def nth_list_update algebra_simps)
  qed
qed

lemma col_fold_emplace_update:
  assumes "i < n" and rn: "r < n"
  shows "cols_ok n m \<Longrightarrow>
         cols_ok n (fold (\<lambda>(w_j, alpha_j) m.
                 map_update alpha_j (\<lambda>second. second[i := Expression_plus (second ! i) w_j])
                   (map_emplace alpha_j (replicate n (EConstant 0)) m)) zs m) \<and>
         col_sum I env r (fold (\<lambda>(w_j, alpha_j) m.
                 map_update alpha_j (\<lambda>second. second[i := Expression_plus (second ! i) w_j])
                   (map_emplace alpha_j (replicate n (EConstant 0)) m)) zs m)
         = col_sum I env r m
           + (if r = i then (\<Sum>p\<leftarrow>zs. eval I env (fst p) * eval I env (snd p)) else 0)"
proof (induction zs arbitrary: m)
  case Nil
  then show ?case by simp
next
  case (Cons z zs)
  obtain w a where z: "z = (w, a)" by (cases z)
  let ?m1 = "map_update a (\<lambda>second. second[i := Expression_plus (second ! i) w])
                   (map_emplace a (replicate n (EConstant 0)) m)"
  note S = col_emplace_update[OF assms(1) Cons.prems rn, of a w I env]
  from Cons.IH[of ?m1] S show ?case unfolding z by (simp add: algebra_simps)
qed

lemma row_step_value:
  assumes "i < n" "cols_ok n am" "length w0 = n"
    and "row_step n i (w, alpha, this_w0) (w0, am) = (w0', am')"
    and rn: "r < n"
  shows "cols_ok n am' \<and> length w0' = n \<and>
         col_sum I env r am' = col_sum I env r am + (if r = i then weighted_sum I env w alpha else 0) \<and>
         w0' ! r = (if r = i then this_w0 else w0 ! r)"
proof -
  from assms(4) have a: "am' = fold (\<lambda>(w_j, alpha_j) m.
                 map_update alpha_j (\<lambda>second. second[i := Expression_plus (second ! i) w_j])
                   (map_emplace alpha_j (replicate n (EConstant 0)) m)) (zip w alpha) am"
    and w: "w0' = w0[i := this_w0]"
    by (simp_all add: row_step_def)
  from col_fold_emplace_update[OF assms(1) rn assms(2), of "zip w alpha" I env]
  show ?thesis unfolding a w using assms(1,3)
    by (simp add: weighted_sum_def nth_list_update)
qed

definition rows_done ::
  "(Expression \<Rightarrow> Expression) \<Rightarrow> Expression list \<Rightarrow> nat set
     \<Rightarrow> Expression list \<times> (Expression \<times> Expression list) list
     \<Rightarrow> Expression list \<times> (Expression \<times> Expression list) list \<Rightarrow> bool" where
  "rows_done Expand f R s s' =
     (cols_ok (length f) (snd s') \<and> length (fst s') = length f \<and>
      (\<forall>I env. \<forall>r < length f.
         if r \<in> R
         then col_sum I env r (snd s') + eval I env (fst s' ! r)
              = col_sum I env r (snd s) + eval I env (Expand (f ! r))
         else col_sum I env r (snd s') = col_sum I env r (snd s) \<and> fst s' ! r = fst s ! r))"

lemma fold_rows:
  "fold (\<lambda>i acc. case acc of Inl err \<Rightarrow> Inl err
                   | Inr s \<Rightarrow> (case Decompose Expand (f ! i) P of
                                 Inl err \<Rightarrow> Inl err
                               | Inr r \<Rightarrow> Inr (row_step (length f) i r s)))
        is (Inr s) = Inr s' \<Longrightarrow>
   cols_ok (length f) (snd s) \<Longrightarrow> length (fst s) = length f \<Longrightarrow>
   distinct is \<Longrightarrow> set is \<subseteq> {..<length f} \<Longrightarrow>
   rows_done Expand f (set is) s s'"
proof (induction "is" arbitrary: s)
  case Nil
  then show ?case by (simp add: rows_done_def)
next
  case (Cons i "is")
  show ?case
  proof (cases "Decompose Expand (f ! i) P")
    case (Inl err)
    with Cons.prems(1) show ?thesis by (simp add: fold_Inl)
  next
    case (Inr r)
    obtain w alpha this_w0 where r: "r = (w, alpha, this_w0)" by (cases r)
    obtain w0 am where s: "s = (w0, am)" by (cases s)
    obtain w0' am' where s1: "row_step (length f) i (w, alpha, this_w0) (w0, am) = (w0', am')"
      by (cases "row_step (length f) i (w, alpha, this_w0) (w0, am)")
    from Cons.prems(1) Inr have f: "fold (\<lambda>i acc. case acc of Inl err \<Rightarrow> Inl err
                   | Inr s \<Rightarrow> (case Decompose Expand (f ! i) P of
                                 Inl err \<Rightarrow> Inl err
                               | Inr r \<Rightarrow> Inr (row_step (length f) i r s)))
        is (Inr (w0', am')) = Inr s'"
      unfolding r s s1[symmetric] by simp
    from Cons.prems have i: "i < length f" and ni: "i \<notin> set is" and d: "distinct is"
      and sub: "set is \<subseteq> {..<length f}" by auto
    from Cons.prems have c: "cols_ok (length f) am" and l: "length w0 = length f" unfolding s by simp_all
    note R = row_step_value[OF i c l s1]
    from Inr have v: "\<And>I env. lumped_value I env (w, alpha, this_w0) = eval I env (Expand (f ! i))"
      unfolding r Decompose_def using Visit_value by blast
    have IH: "rows_done Expand f (set is) (w0', am') s'"
      by (rule Cons.IH[OF f _ _ d sub]) (use R[OF i] in simp_all)
    show ?thesis
      unfolding rows_done_def
    proof (intro conjI allI impI)
      show "cols_ok (length f) (snd s')" using IH by (simp add: rows_done_def)
      show "length (fst s') = length f" using IH by (simp add: rows_done_def)
    next
      fix I env r' assume r': "r' < length f"
      from IH r' have H: "if r' \<in> set is
         then col_sum I env r' (snd s') + eval I env (fst s' ! r')
              = col_sum I env r' am' + eval I env (Expand (f ! r'))
         else col_sum I env r' (snd s') = col_sum I env r' am' \<and> fst s' ! r' = w0' ! r'"
        unfolding rows_done_def by simp
      from R[OF r', of I env] have R1: "col_sum I env r' am'
           = col_sum I env r' am + (if r' = i then weighted_sum I env w alpha else 0)"
        and R2: "w0' ! r' = (if r' = i then this_w0 else w0 ! r')" by simp_all
      show "if r' \<in> set (i # is)
         then col_sum I env r' (snd s') + eval I env (fst s' ! r')
              = col_sum I env r' (snd s) + eval I env (Expand (f ! r'))
         else col_sum I env r' (snd s') = col_sum I env r' (snd s) \<and> fst s' ! r' = fst s ! r'"
      proof (cases "r' = i")
        case True
        with ni H R1 R2 v[of I env] show ?thesis unfolding s
          by (simp add: lumped_value_def)
      next
        case False
        with H R1 R2 show ?thesis unfolding s by (simp split: if_splits)
      qed
    qed
  qed
qed

lemma weighted_sum_cols:
  "weighted_sum I env (map (\<lambda>(key, val). val ! i) am) (map fst am) = col_sum I env i am"
  by (induction am) (auto simp: col_sum_def)

lemma DecomposeLumpedParameters_rows:
  assumes "DecomposeLumpedParameters Expand f ps = Inr (Wm, \<alpha>v, w0v)"
  shows "length Wm = length f \<and> length w0v = length f \<and>
         (\<forall>i < length f. length (Wm ! i) = length \<alpha>v \<and>
            (\<forall>I env. weighted_sum I env (Wm ! i) \<alpha>v + eval I env (w0v ! i)
                      = eval I env (Expand (f ! i))))"
proof -
  let ?s0 = "(replicate (length f) (EConstant 0), [] :: (Expression \<times> Expression list) list)"
  from assms obtain w0 am where
    f: "fold (\<lambda>i acc. case acc of Inl err \<Rightarrow> Inl err
                   | Inr s \<Rightarrow> (case Decompose Expand (f ! i) (Variables_of ps) of
                                 Inl err \<Rightarrow> Inl err
                               | Inr r \<Rightarrow> Inr (row_step (length f) i r s)))
                [0..<length f] (Inr ?s0) = Inr (w0, am)"
    and W: "Wm = map (\<lambda>i. map (\<lambda>(key, val). val ! i) am) [0..<length f]"
    and A: "\<alpha>v = map fst am" and w: "w0v = w0"
    by (auto simp: DecomposeLumpedParameters_def split: sum.splits)
  have "rows_done Expand f (set [0..<length f]) ?s0 (w0, am)"
    by (rule fold_rows[OF f]) (auto simp: cols_ok_def)
  then have l: "length w0 = length f"
    and v: "\<And>I env r. r < length f \<Longrightarrow>
              col_sum I env r am + eval I env (w0 ! r) = eval I env (Expand (f ! r))"
    by (auto simp: rows_done_def col_sum_def)
  show ?thesis
    unfolding W A w using l v by (simp add: weighted_sum_cols)
qed

text \<open>
  C1.  Whenever the factorization of an expression succeeds, the returned weights and
  basis expressions have the same length and \<open>\<Sum>\<^sub>i W\<^sub>i * \<alpha>\<^sub>i + w0\<close> has the value of the
  expansion of the expression, under every assignment of the variables and every
  interpretation of the opaque operators.  Whenever the factorization of a vector
  succeeds, every row \<open>i\<close> of the matrix has one entry per basis expression and
  \<open>\<Sum>\<^sub>j W\<^sub>i\<^sub>j * \<alpha>\<^sub>j + w0\<^sub>i\<close> has the value of the expansion of \<open>f\<^sub>i\<close>.
\<close>

theorem lumped_round_trip:
  "(Decompose Expand e P = Inr (W, \<alpha>, w0) \<longrightarrow>
      length W = length \<alpha> \<and>
      (\<forall>I env. weighted_sum I env W \<alpha> + eval I env w0 = eval I env (Expand e))) \<and>
   (DecomposeLumpedParameters Expand f ps = Inr (Wm, \<alpha>v, w0v) \<longrightarrow>
      length Wm = length f \<and> length w0v = length f \<and>
      (\<forall>i < length f. length (Wm ! i) = length \<alpha>v \<and>
         (\<forall>I env. weighted_sum I env (Wm ! i) \<alpha>v + eval I env (w0v ! i)
                   = eval I env (Expand (f ! i)))))"
proof (intro conjI impI)
  assume d: "Decompose Expand e P = Inr (W, \<alpha>, w0)"
  then have v: "\<And>I env. good (W, \<alpha>, w0) \<and> lumped_value I env (W, \<alpha>, w0) = eval I env (Expand e)"
    unfolding Decompose_def by (rule Visit_value)
  from v show "length W = length \<alpha>" by (simp add: good_def)
  from v show "\<forall>I env. weighted_sum I env W \<alpha> + eval I env w0 = eval I env (Expand e)"
    by (simp add: lumped_value_def)
next
  assume d: "DecomposeLumpedParameters Expand f ps = Inr (Wm, \<alpha>v, w0v)"
  note R = DecomposeLumpedParameters_rows[OF d]
  from R show "length Wm = length f" by blast
  from R show "length w0v = length f" by blast
  from R show "\<forall>i < length f. length (Wm ! i) = length \<alpha>v \<and>
         (\<forall>I env. weighted_sum I env (Wm ! i) \<alpha>v + eval I env (w0v ! i)
                   = eval I env (Expand (f ! i)))" by blast
qed

lemma Visit_product_example:
  "Visit [Variable 3] (EMul 1 [(EVar (Variable 0), EConstant 1), (EVar (Variable 3), EConstant 1)])
   = Inr ([EVar (Variable 0)], [EVar (Variable 3)], EConstant 0)"
  by (simp add: VisitVariable_def Variables_include_def SimpleMultiplication_def is_one_def
      is_zero_def is_constant_def Expression_times_def outer_product_def)

lemma Visit_product_example2:
  "Visit [Variable 3] (EMul 1 [(EVar (Variable 2), EConstant 1), (EVar (Variable 3), EConstant 1)])
   = Inr ([EVar (Variable 2)], [EVar (Variable 3)], EConstant 0)"
  by (simp add: VisitVariable_def Variables_include_def SimpleMultiplication_def is_one_def
      is_zero_def is_constant_def Expression_times_def outer_product_def)

lemma shared_column_example:
  "DecomposeLumpedParameters (\<lambda>e. e)
     [EMul 1 [(EVar (Variable 0), EConstant 1), (EVar (Variable 3), EConstant 1)],
      EMul 1 [(EVar (Variable 2), EConstant 1), (EVar (Variable 3), EConstant 1)]]
     [Variable 3]
   = Inr ([[EVar (Variable 0)], [EVar (Variable 2)]], [EVar (Variable 3)],
          [EConstant 0, EConstant 0])"
proof -
  have l: "\<not> Less (EVar (Variable 3)) (EVar (Variable 3))" by simp
  show ?thesis
    using l
    by (simp add: DecomposeLumpedParameters_def Decompose_def Variables_of_def
        Visit_product_example Visit_product_example2 row_step_def upt_rec
        Expression_plus_def is_zero_def del: Visit.simps upt_Suc)
qed

theorem lumped_round_trip_witness:
  "Decompose (\<lambda>e. e)
      (EMul 1 [(EVar (Variable 0), EConstant 1), (EVar (Variable 3), EConstant 1)]) [Variable 3]
     = Inr ([EVar (Variable 0)], [EVar (Variable 3)], EConstant 0) \<and>
   weighted_sum (\<lambda>k args. 0) (\<lambda>v. 2) [EVar (Variable 0)] [EVar (Variable 3)]
      + eval (\<lambda>k args. 0) (\<lambda>v. 2) (EConstant 0) = 4 \<and>
   DecomposeLumpedParameters (\<lambda>e. e)
     [EMul 1 [(EVar (Variable 0), EConstant 1), (EVar (Variable 3), EConstant 1)],
      EMul 1 [(EVar (Variable 2), EConstant 1), (EVar (Variable 3), EConstant 1)]]
     [Variable 3]
   = Inr ([[EVar (Variable 0)], [EVar (Variable 2)]], [EVar (Variable 3)],
          [EConstant 0, EConstant 0]) \<and>
   (1::nat) < length [EMul 1 [(EVar (Variable 0), EConstant 1), (EVar (Variable 3), EConstant 1)],
      EMul 1 [(EVar (Variable 2), EConstant 1), (EVar (Variable 3), EConstant 1)]] \<and>
   weighted_sum (\<lambda>k args. 0) (\<lambda>v. 2) ([[EVar (Variable 0)], [EVar (Variable 2)]] ! 1)
       [EVar (Variable 3)]
      + eval (\<lambda>k args. 0) (\<lambda>v. 2) ([EConstant 0, EConstant 0] ! 1) = 4"
proof -
  let ?e = "EMul 1 [(EVar (Variable 0), EConstant 1), (EVar (Variable 3), EConstant 1)]"
  let ?e2 = "EMul 1 [(EVar (Variable 2), EConstant 1), (EVar (Variable 3), EConstant 1)]"
  have d: "Decompose (\<lambda>e. e) ?e [Variable 3]
           = Inr ([EVar (Variable 0)], [EVar (Variable 3)], EConstant 0)"
    unfolding Decompose_def by (rule Visit_product_example)
  note v = shared_column_example
  note T = lumped_round_trip[of "\<lambda>e. e" ?e "[Variable 3]" "[EVar (Variable 0)]"
      "[EVar (Variable 3)]" "EConstant 0" "[?e, ?e2]" "[Variable 3]"
      "[[EVar (Variable 0)], [EVar (Variable 2)]]" "[EVar (Variable 3)]"
      "[EConstant 0, EConstant 0]"]
  from T d have 1: "weighted_sum (\<lambda>k args. 0) (\<lambda>v. 2) [EVar (Variable 0)] [EVar (Variable 3)]
      + eval (\<lambda>k args. 0) (\<lambda>v. 2) (EConstant 0) = eval (\<lambda>k args. 0) (\<lambda>v. 2) ?e"
    by blast
  have i: "(1::nat) < length [?e, ?e2]" by simp
  from T v i have 2: "weighted_sum (\<lambda>k args. 0) (\<lambda>v. 2) ([[EVar (Variable 0)], [EVar (Variable 2)]] ! 1)
       [EVar (Variable 3)]
      + eval (\<lambda>k args. 0) (\<lambda>v. 2) ([EConstant 0, EConstant 0] ! 1)
      = eval (\<lambda>k args. 0) (\<lambda>v. 2) ([?e, ?e2] ! 1)"
    by blast
  have e1: "eval (\<lambda>k args. 0) (\<lambda>v. 2) ?e = 4" by (simp add: pow_value_def)
  have e2: "eval (\<lambda>k args. 0) (\<lambda>v. 2) ([?e, ?e2] ! 1) = 4" by (simp add: pow_value_def)
  from d v i 1 2 show ?thesis unfolding e1 e2 by blast
qed

subsection \<open>Failures of the factorizer\<close>

text \<open>
  An expression mixes parameters and state variables when one of its variables is a
  parameter and another one is not.
\<close>

definition mixed :: "Variables \<Rightarrow> Expression \<Rightarrow> bool" where
  "mixed parameters e =
     ((\<exists>v \<in> set (GetVariables e). v \<in> set parameters) \<and>
      (\<exists>v \<in> set (GetVariables e). v \<notin> set parameters))"

text \<open>
  The sub-expressions that the visitor hands to \<^verbatim>\<open>VisitPow\<close> or to
  \<^verbatim>\<open>VisitNonPolynomialTerm\<close>, in the order of the visit: sums and products are
  entered, a factor with an exponent other than one is a power.
\<close>

fun visited_terms :: "Expression \<Rightarrow> Expression list" where
  "visited_terms (EConstant c) = []"
| "visited_terms (EVar v) = []"
| "visited_terms (EAdd c ts) = concat (map (\<lambda>p. visited_terms (fst p)) ts)"
| "visited_terms (EMul c fs) =
     concat (map (\<lambda>p. if is_one (snd p) then visited_terms (fst p)
                      else [Expression_pow (fst p) (snd p)]) fs)"
| "visited_terms (EPow b x) = [EPow b x]"
| "visited_terms (ENonPoly k args) = [ENonPoly k args]"

text \<open>The failure raised for a visited sub-expression that mixes its variables.\<close>

definition failure_of :: "Expression \<Rightarrow> error" where
  "failure_of s =
     (case s of
        EPow b x \<Rightarrow> if is_constant x then UnsupportedMixedPower s else NonSeparablePower s
      | _ \<Rightarrow> NonSeparableNonlinearTerm s)"

text \<open>The first failure of a loop that stops at the first exception.\<close>

fun first_error :: "('a \<Rightarrow> error + 'b) \<Rightarrow> 'a list \<Rightarrow> error option" where
  "first_error g [] = None"
| "first_error g (x # xs) = (case g x of Inl e \<Rightarrow> Some e | Inr r \<Rightarrow> first_error g xs)"

lemma fold_error_iff:
  "(fold (\<lambda>p acc. case acc of Inl err \<Rightarrow> Inl err
              | Inr s \<Rightarrow> (case g p of Inl err \<Rightarrow> Inl err | Inr r \<Rightarrow> Inr (h p r s)))
         xs (Inr s0) = Inl err) = (first_error g xs = Some err)"
proof (induction xs arbitrary: s0)
  case Nil
  then show ?case by simp
next
  case (Cons x xs)
  show ?case
  proof (cases "g x")
    case (Inl e)
    then show ?thesis by (simp add: fold_Inl)
  next
    case (Inr r)
    then show ?thesis using Cons.IH[of "h x r s0"] by simp
  qed
qed

lemma find_app:
  "find Q (xs @ ys) = (case find Q xs of None \<Rightarrow> find Q ys | Some x \<Rightarrow> Some x)"
  by (induction xs) simp_all

lemma first_error_find:
  assumes "\<And>x e. x \<in> set xs \<Longrightarrow> (g x = Inl e) = (map_option failure_of (find Q (F x)) = Some e)"
  shows "(first_error g xs = Some err)
         = (map_option failure_of (find Q (concat (map F xs))) = Some err)"
  using assms
proof (induction xs)
  case Nil
  then show ?case by simp
next
  case (Cons x xs)
  have IH: "(first_error g xs = Some err)
         = (map_option failure_of (find Q (concat (map F xs))) = Some err)"
    by (rule Cons.IH) (use Cons.prems in auto)
  have X: "\<And>e. (g x = Inl e) = (map_option failure_of (find Q (F x)) = Some e)"
    using Cons.prems[of x] by simp
  show ?case
  proof (cases "g x")
    case (Inl e)
    with X[of e] obtain s where "find Q (F x) = Some s" "failure_of s = e" by auto
    with Inl show ?thesis by (simp add: find_app)
  next
    case (Inr r)
    have "find Q (F x) = None"
    proof (cases "find Q (F x)")
      case None
      then show ?thesis .
    next
      case (Some s)
      with X[of "failure_of s"] Inr show ?thesis by simp
    qed
    with Inr IH show ?thesis by (simp add: find_app)
  qed
qed

lemma mixed_iff:
  "mixed P e = (\<not> IsSubsetOf (GetVariables e) P \<and> intersect (GetVariables e) P \<noteq> [])"
  by (auto simp: mixed_def IsSubsetOf_def intersect_def filter_empty_conv)

lemma VisitPow_error:
  "(VisitPow (EPow b x) P = Inl err)
   = (map_option failure_of (find (mixed P) [EPow b x]) = Some err)"
  by (auto simp: VisitPow_def Let_def mixed_iff failure_of_def)

lemma VisitNonPolynomialTerm_error:
  "(VisitNonPolynomialTerm (ENonPoly k args) P = Inl err)
   = (map_option failure_of (find (mixed P) [ENonPoly k args]) = Some err)"
  by (auto simp: VisitNonPolynomialTerm_def Let_def mixed_iff failure_of_def)

lemma Visit_error:
  "(Visit P e = Inl err) = (map_option failure_of (find (mixed P) (visited_terms e)) = Some err)"
proof (induction P e arbitrary: err rule: Visit.induct)
  case (1 parameters c)
  then show ?case by (simp add: VisitConstant_def)
next
  case (2 parameters v)
  then show ?case by (simp add: VisitVariable_def Let_def)
next
  case (3 parameters c0 ts)
  have "(Visit parameters (EAdd c0 ts) = Inl err)
        = (fold (\<lambda>p acc. case acc of Inl err \<Rightarrow> Inl err
              | Inr s \<Rightarrow> (case Visit parameters (fst p) of Inl err \<Rightarrow> Inl err
                          | Inr r \<Rightarrow> Inr (addition_step (snd p) r s)))
         ts (Inr (EConstant c0, [])) = Inl err)"
    by (auto split: sum.splits)
  also have "\<dots> = (first_error (\<lambda>p. Visit parameters (fst p)) ts = Some err)"
    by (rule fold_error_iff)
  also have "\<dots> = (map_option failure_of (find (mixed parameters)
                      (concat (map (\<lambda>p. visited_terms (fst p)) ts))) = Some err)"
    by (rule first_error_find) (use "3.IH" in blast)
  finally show ?case by simp
next
  case (4 parameters c fs)
  let ?g = "\<lambda>p. if is_one (snd p) then Visit parameters (fst p)
                 else VisitPow (Expression_pow (fst p) (snd p)) parameters"
  let ?F = "\<lambda>p. if is_one (snd p) then visited_terms (fst p)
                 else [Expression_pow (fst p) (snd p)]"
  have "(Visit parameters (EMul c fs) = Inl err)
        = (fold (\<lambda>p acc. case acc of Inl err \<Rightarrow> Inl err
              | Inr f \<Rightarrow> (case ?g p of Inl err \<Rightarrow> Inl err
                          | Inr r \<Rightarrow> Inr (SimpleMultiplication f r)))
         fs (Inr ([], [], EConstant c)) = Inl err)"
    by simp
  also have "\<dots> = (first_error ?g fs = Some err)"
    by (rule fold_error_iff[where h = "\<lambda>p r f. SimpleMultiplication f r"])
  also have "\<dots> = (map_option failure_of (find (mixed parameters) (concat (map ?F fs))) = Some err)"
  proof (rule first_error_find)
    fix p e assume p: "p \<in> set fs"
    show "(?g p = Inl e) = (map_option failure_of (find (mixed parameters) (?F p)) = Some e)"
    proof (cases "is_one (snd p)")
      case True
      with "4.IH"[OF p True] show ?thesis by simp
    next
      case False
      then show ?thesis using VisitPow_error[of "fst p" "snd p" parameters e]
        by (simp add: Expression_pow_def)
    qed
  qed
  finally show ?case by simp
next
  case (5 parameters b x)
  then show ?case using VisitPow_error[of b x parameters err] by simp
next
  case (6 parameters k args)
  then show ?case using VisitNonPolynomialTerm_error[of k args parameters err] by simp
qed

lemma first_error_Some_iff:
  "(\<exists>e. first_error g xs = Some e) = (\<exists>x \<in> set xs. \<exists>e. g x = Inl e)"
  by (induction xs) (auto split: sum.splits)

lemma DecomposeLumpedParameters_error:
  "(DecomposeLumpedParameters Expand f ps = Inl err)
   = (first_error (\<lambda>i. Decompose Expand (f ! i) (Variables_of ps)) [0..<length f] = Some err)"
proof -
  have "(DecomposeLumpedParameters Expand f ps = Inl err)
        = (fold (\<lambda>i acc. case acc of Inl err \<Rightarrow> Inl err
                   | Inr s \<Rightarrow> (case Decompose Expand (f ! i) (Variables_of ps) of
                                 Inl err \<Rightarrow> Inl err
                               | Inr r \<Rightarrow> Inr (row_step (length f) i r s)))
                [0..<length f] (Inr (replicate (length f) (EConstant 0), [])) = Inl err)"
    by (auto simp: DecomposeLumpedParameters_def split: sum.splits)
  also have "\<dots> = (first_error (\<lambda>i. Decompose Expand (f ! i) (Variables_of ps)) [0..<length f]
                     = Some err)"
    by (rule fold_error_iff[where h = "\<lambda>i r s. row_step (length f) i r s"])
  finally show ?thesis .
qed

text \<open>
  C4.  The factorization of an expression fails exactly when one of the visited
  sub-expressions of its expansion mixes parameters and state variables, and the failure
  is the one of the first such sub-expression, which it names: a mixed power fails with
  \<open>UnsupportedMixedPower\<close> when its exponent is a constant and with
  \<open>NonSeparablePower\<close> otherwise, a mixed node of any other non-polynomial kind fails
  with \<open>NonSeparableNonlinearTerm\<close>; a power or non-polynomial node that does not mix
  is factorized.  The factorization of a vector fails, with no result, exactly when the
  factorization of one of its rows does, and with the failure of the first such row.
\<close>

theorem factorizer_failure:
  "((Decompose Expand e P = Inl err)
      = (\<exists>s. find (mixed P) (visited_terms (Expand e)) = Some s \<and> err = failure_of s)) \<and>
   (mixed P (EPow b x) \<longrightarrow>
      Visit P (EPow b x) = Inl (if is_constant x then UnsupportedMixedPower (EPow b x)
                                else NonSeparablePower (EPow b x))) \<and>
   (mixed P (ENonPoly k args) \<longrightarrow>
      Visit P (ENonPoly k args) = Inl (NonSeparableNonlinearTerm (ENonPoly k args))) \<and>
   (\<not> mixed P (EPow b' x') \<longrightarrow> (\<exists>r. Visit P (EPow b' x') = Inr r)) \<and>
   (\<not> mixed P (ENonPoly k' args') \<longrightarrow> (\<exists>r. Visit P (ENonPoly k' args') = Inr r)) \<and>
   ((DecomposeLumpedParameters Expand f ps = Inl err)
      = (first_error (\<lambda>i. Decompose Expand (f ! i) (Variables_of ps)) [0..<length f] = Some err)) \<and>
   ((\<exists>err. DecomposeLumpedParameters Expand f ps = Inl err)
      = (\<exists>i < length f. \<exists>err. Decompose Expand (f ! i) (Variables_of ps) = Inl err))"
proof (intro conjI impI)
  show "(Decompose Expand e P = Inl err)
      = (\<exists>s. find (mixed P) (visited_terms (Expand e)) = Some s \<and> err = failure_of s)"
    unfolding Decompose_def Visit_error by auto
  show "Visit P (EPow b x) = Inl (if is_constant x then UnsupportedMixedPower (EPow b x)
                                else NonSeparablePower (EPow b x))" if "mixed P (EPow b x)"
    using that unfolding Visit_error by (simp add: failure_of_def)
  show "Visit P (ENonPoly k args) = Inl (NonSeparableNonlinearTerm (ENonPoly k args))"
    if "mixed P (ENonPoly k args)"
    using that unfolding Visit_error by (simp add: failure_of_def)
  show "\<exists>r. Visit P (EPow b' x') = Inr r" if "\<not> mixed P (EPow b' x')"
  proof (cases "Visit P (EPow b' x')")
    case (Inl e)
    with that show ?thesis unfolding Visit_error by simp
  next
    case (Inr r)
    then show ?thesis by blast
  qed
  show "\<exists>r. Visit P (ENonPoly k' args') = Inr r" if "\<not> mixed P (ENonPoly k' args')"
  proof (cases "Visit P (ENonPoly k' args')")
    case (Inl e)
    with that show ?thesis unfolding Visit_error by simp
  next
    case (Inr r)
    then show ?thesis by blast
  qed
  show "(DecomposeLumpedParameters Expand f ps = Inl err)
      = (first_error (\<lambda>i. Decompose Expand (f ! i) (Variables_of ps)) [0..<length f] = Some err)"
    by (rule DecomposeLumpedParameters_error)
  show "(\<exists>err. DecomposeLumpedParameters Expand f ps = Inl err)
      = (\<exists>i < length f. \<exists>err. Decompose Expand (f ! i) (Variables_of ps) = Inl err)"
    unfolding DecomposeLumpedParameters_error first_error_Some_iff by auto
qed

lemma GetVariables_sin_example:
  "GetVariables (ENonPoly Sin [EMul 1 [(EVar (Variable 0), EConstant 1),
                                       (EVar (Variable 3), EConstant 1)]])
   = [Variable 0, Variable 3]"
  by (simp add: GetVariables_def)

lemma GetVariables_sqrt_sum_example:
  "GetVariables (EPow (EAdd 0 [(EVar (Variable 0), 1), (EVar (Variable 3), 1)]) (EConstant (1/2)))
   = [Variable 0, Variable 3]"
  by (simp add: GetVariables_def)

lemma GetVariables_pow_var_example:
  "GetVariables (EPow (EVar (Variable 2)) (EConstant 2)) = [Variable 2]"
  by (simp add: GetVariables_def)

lemma GetVariables_cos_example:
  "GetVariables (ENonPoly Cos [EVar (Variable 3)]) = [Variable 3]"
  by (simp add: GetVariables_def)

theorem factorizer_failure_witness:
  "mixed [Variable 3] (EPow (EAdd 0 [(EVar (Variable 0), 1), (EVar (Variable 3), 1)]) (EConstant (1/2))) \<and>
   Visit [Variable 3] (EPow (EAdd 0 [(EVar (Variable 0), 1), (EVar (Variable 3), 1)]) (EConstant (1/2)))
     = Inl (UnsupportedMixedPower
             (EPow (EAdd 0 [(EVar (Variable 0), 1), (EVar (Variable 3), 1)]) (EConstant (1/2)))) \<and>
   mixed [Variable 3] (ENonPoly Sin [EMul 1 [(EVar (Variable 0), EConstant 1),
                                             (EVar (Variable 3), EConstant 1)]]) \<and>
   Visit [Variable 3] (ENonPoly Sin [EMul 1 [(EVar (Variable 0), EConstant 1),
                                             (EVar (Variable 3), EConstant 1)]])
     = Inl (NonSeparableNonlinearTerm
             (ENonPoly Sin [EMul 1 [(EVar (Variable 0), EConstant 1),
                                    (EVar (Variable 3), EConstant 1)]])) \<and>
   \<not> mixed [Variable 3] (EPow (EVar (Variable 2)) (EConstant 2)) \<and>
   (\<exists>r. Visit [Variable 3] (EPow (EVar (Variable 2)) (EConstant 2)) = Inr r) \<and>
   \<not> mixed [Variable 3] (ENonPoly Cos [EVar (Variable 3)]) \<and>
   (\<exists>r. Visit [Variable 3] (ENonPoly Cos [EVar (Variable 3)]) = Inr r)"
proof -
  let ?pw = "EPow (EAdd 0 [(EVar (Variable 0), 1), (EVar (Variable 3), 1)]) (EConstant (1/2))"
  let ?sn = "ENonPoly Sin [EMul 1 [(EVar (Variable 0), EConstant 1),
                                   (EVar (Variable 3), EConstant 1)]]"
  have m1: "mixed [Variable 3] ?pw"
    unfolding mixed_def GetVariables_sqrt_sum_example by simp
  have m2: "mixed [Variable 3] ?sn"
    unfolding mixed_def GetVariables_sin_example by simp
  have m3: "\<not> mixed [Variable 3] (EPow (EVar (Variable 2)) (EConstant 2))"
    unfolding mixed_def GetVariables_pow_var_example by simp
  have m4: "\<not> mixed [Variable 3] (ENonPoly Cos [EVar (Variable 3)])"
    unfolding mixed_def GetVariables_cos_example by simp
  have c: "is_constant (EConstant (1/2))" by (simp add: is_constant_def)
  note T = factorizer_failure[of "\<lambda>e. e" ?sn "[Variable 3]" "NonSeparableNonlinearTerm ?sn"
      "EAdd 0 [(EVar (Variable 0), 1), (EVar (Variable 3), 1)]" "EConstant (1/2)"
      Sin "[EMul 1 [(EVar (Variable 0), EConstant 1), (EVar (Variable 3), EConstant 1)]]"
      "EVar (Variable 2)" "EConstant 2" Cos "[EVar (Variable 3)]" "[]" "[]"]
  from T m1 c have 1: "Visit [Variable 3] ?pw = Inl (UnsupportedMixedPower ?pw)" by presburger
  from T m2 have 2: "Visit [Variable 3] ?sn = Inl (NonSeparableNonlinearTerm ?sn)" by blast
  from T m3 have 3: "\<exists>r. Visit [Variable 3] (EPow (EVar (Variable 2)) (EConstant 2)) = Inr r"
    by blast
  from T m4 have 4: "\<exists>r. Visit [Variable 3] (ENonPoly Cos [EVar (Variable 3)]) = Inr r"
    by blast
  from m1 1 m2 2 m3 3 m4 4 show ?thesis by blast
qed

subsection \<open>The columns of the vector factorization\<close>

lemma map_fst_map_update [simp]: "map fst (map_update k g m) = map fst m"
  by (induction m) auto

lemma set_keys_map_emplace:
  "set (map fst (map_emplace k v m)) = insert k (set (map fst m))"
proof (induction m)
  case Nil
  then show ?case by simp
next
  case (Cons e m)
  obtain k' v' where e: "e = (k', v')" by (cases e)
  consider (lt) "Less k k'" | (gt) "\<not> Less k k'" "Less k' k" | (eq) "\<not> Less k k'" "\<not> Less k' k"
    by blast
  then show ?case
  proof cases
    case lt
    then show ?thesis unfolding e by auto
  next
    case gt
    then show ?thesis unfolding e using Cons.IH by auto
  next
    case eq
    then have "k = k'" by (rule Less_total)
    with eq show ?thesis unfolding e by auto
  qed
qed

lemma sorted_keys_map_emplace:
  "sorted_wrt Less (map fst m) \<Longrightarrow> sorted_wrt Less (map fst (map_emplace k v m))"
proof (induction m)
  case Nil
  then show ?case by simp
next
  case (Cons e m)
  obtain k' v' where e: "e = (k', v')" by (cases e)
  from Cons.prems have s: "sorted_wrt Less (map fst m)" and a: "\<forall>x \<in> set (map fst m). Less k' x"
    unfolding e by simp_all
  consider (lt) "Less k k'" | (gt) "\<not> Less k k'" "Less k' k" | (eq) "\<not> Less k k'" "\<not> Less k' k"
    by blast
  then show ?case
  proof cases
    case lt
    with a have "\<forall>x \<in> set (map fst m). Less k x" using Less_trans by blast
    with lt Cons.prems show ?thesis unfolding e by simp
  next
    case gt
    have "\<forall>x \<in> set (map fst (map_emplace k v m)). Less k' x"
      unfolding set_keys_map_emplace using a gt by simp
    with gt Cons.IH[OF s] show ?thesis unfolding e by simp
  next
    case eq
    with Cons.prems show ?thesis unfolding e by simp
  qed
qed

lemma sorted_wrt_Less_distinct: "sorted_wrt Less xs \<Longrightarrow> distinct xs"
  by (induction xs) (use Less_irrefl in auto)

definition keys_step :: "Expression list \<Rightarrow> (Expression \<times> 'v) list \<Rightarrow> (Expression \<times> 'v) list \<Rightarrow> bool" where
  "keys_step as m m' =
     (set (map fst m') = set (map fst m) \<union> set as \<and>
      (sorted_wrt Less (map fst m) \<longrightarrow> sorted_wrt Less (map fst m')))"

lemma keys_fold_emplace_update:
  "length w = length alpha \<Longrightarrow>
   keys_step alpha m
     (fold (\<lambda>(w_j, alpha_j) m. map_update alpha_j (g w_j) (map_emplace alpha_j v0 m))
           (zip w alpha) m)"
proof (induction w alpha arbitrary: m rule: list_induct2)
  case Nil
  then show ?case by (simp add: keys_step_def)
next
  case (Cons x xs y ys)
  let ?m1 = "map_update y (g x) (map_emplace y v0 m)"
  let ?m2 = "fold (\<lambda>(w_j, alpha_j) m. map_update alpha_j (g w_j) (map_emplace alpha_j v0 m))
           (zip xs ys) ?m1"
  have k1: "set (map fst ?m1) = insert y (set (map fst m))"
    unfolding map_fst_map_update by (rule set_keys_map_emplace)
  have s1: "sorted_wrt Less (map fst m) \<Longrightarrow> sorted_wrt Less (map fst ?m1)"
    unfolding map_fst_map_update by (rule sorted_keys_map_emplace)
  from Cons.IH[of ?m1] have k2: "set (map fst ?m2) = set (map fst ?m1) \<union> set ys"
    and s2: "sorted_wrt Less (map fst ?m1) \<Longrightarrow> sorted_wrt Less (map fst ?m2)"
    unfolding keys_step_def by blast+
  have "set (map fst ?m2) = set (map fst m) \<union> set (y # ys)"
    unfolding k2 k1 by auto
  moreover have "sorted_wrt Less (map fst m) \<longrightarrow> sorted_wrt Less (map fst ?m2)"
    using s1 s2 by blast
  ultimately show ?case unfolding keys_step_def by simp
qed

text \<open>The basis expressions that the scalar factorization of row \<open>i\<close> returns.\<close>

definition row_alphas ::
  "(Expression \<Rightarrow> Expression) \<Rightarrow> Expression list \<Rightarrow> Variables \<Rightarrow> nat \<Rightarrow> Expression set" where
  "row_alphas Expand f P i =
     (case Decompose Expand (f ! i) P of Inr (w, alpha, w0) \<Rightarrow> set alpha | Inl err \<Rightarrow> {})"

lemma fold_rows_keys:
  "fold (\<lambda>i acc. case acc of Inl err \<Rightarrow> Inl err
                   | Inr s \<Rightarrow> (case Decompose Expand (f ! i) P of
                                 Inl err \<Rightarrow> Inl err
                               | Inr r \<Rightarrow> Inr (row_step n i r s)))
        is (Inr s) = Inr s' \<Longrightarrow>
   set (map fst (snd s')) = set (map fst (snd s)) \<union> (\<Union>i \<in> set is. row_alphas Expand f P i) \<and>
   (sorted_wrt Less (map fst (snd s)) \<longrightarrow> sorted_wrt Less (map fst (snd s')))"
proof (induction "is" arbitrary: s)
  case Nil
  then show ?case by simp
next
  case (Cons i "is")
  show ?case
  proof (cases "Decompose Expand (f ! i) P")
    case (Inl err)
    with Cons.prems(1) show ?thesis by (simp add: fold_Inl)
  next
    case (Inr r)
    obtain w alpha this_w0 where r: "r = (w, alpha, this_w0)" by (cases r)
    obtain w0 am where s: "s = (w0, am)" by (cases s)
    let ?s1 = "row_step n i r s"
    from Cons.prems(1) Inr have f: "fold (\<lambda>i acc. case acc of Inl err \<Rightarrow> Inl err
                   | Inr s \<Rightarrow> (case Decompose Expand (f ! i) P of
                                 Inl err \<Rightarrow> Inl err
                               | Inr r \<Rightarrow> Inr (row_step n i r s)))
        is (Inr ?s1) = Inr s'"
      by simp
    from Inr have "good r" unfolding Decompose_def using Visit_value by blast
    then have l: "length w = length alpha" unfolding r good_def by simp
    have ra: "row_alphas Expand f P i = set alpha"
      unfolding row_alphas_def Inr r by simp
    have "keys_step alpha am (snd ?s1)"
      unfolding r s row_step_def using keys_fold_emplace_update[OF l] by simp
    then have k: "set (map fst (snd ?s1)) = set (map fst am) \<union> set alpha"
      and so: "sorted_wrt Less (map fst am) \<longrightarrow> sorted_wrt Less (map fst (snd ?s1))"
      unfolding keys_step_def by simp_all
    from Cons.IH[OF f] k so ra show ?thesis unfolding s by auto
  qed
qed

lemma DecomposeLumpedParameters_keys:
  assumes "DecomposeLumpedParameters Expand f ps = Inr (Wm, \<alpha>v, w0v)"
  shows "sorted_wrt Less \<alpha>v \<and> distinct \<alpha>v \<and>
         set \<alpha>v = (\<Union>i < length f. row_alphas Expand f (Variables_of ps) i)"
proof -
  let ?s0 = "(replicate (length f) (EConstant 0), [] :: (Expression \<times> Expression list) list)"
  from assms obtain w0 am where
    f: "fold (\<lambda>i acc. case acc of Inl err \<Rightarrow> Inl err
                   | Inr s \<Rightarrow> (case Decompose Expand (f ! i) (Variables_of ps) of
                                 Inl err \<Rightarrow> Inl err
                               | Inr r \<Rightarrow> Inr (row_step (length f) i r s)))
                [0..<length f] (Inr ?s0) = Inr (w0, am)"
    and A: "\<alpha>v = map fst am"
    by (auto simp: DecomposeLumpedParameters_def split: sum.splits)
  from fold_rows_keys[OF f] have s: "sorted_wrt Less \<alpha>v"
    and k: "set \<alpha>v = (\<Union>i < length f. row_alphas Expand f (Variables_of ps) i)"
    unfolding A by (simp_all add: lessThan_atLeast0)
  from s k sorted_wrt_Less_distinct[OF s] show ?thesis by blast
qed

definition col_val ::
  "(Kind \<Rightarrow> real list \<Rightarrow> real) \<Rightarrow> (Variable \<Rightarrow> real)
     \<Rightarrow> (Expression \<times> Expression list) list \<Rightarrow> Expression \<Rightarrow> nat \<Rightarrow> real" where
  "col_val I env m a r = (case map_of m a of None \<Rightarrow> 0 | Some col \<Rightarrow> eval I env (col ! r))"

text \<open>The sum of the weights that a scalar factorization pairs with the basis expression \<open>a\<close>.\<close>

definition row_weight ::
  "(Kind \<Rightarrow> real list \<Rightarrow> real) \<Rightarrow> (Variable \<Rightarrow> real) \<Rightarrow> LumpedFactorization \<Rightarrow> Expression \<Rightarrow> real" where
  "row_weight I env r a =
     (case r of (w, alpha, w0) \<Rightarrow>
        (\<Sum>p\<leftarrow>zip w alpha. if snd p = a then eval I env (fst p) else 0))"

lemma col_val_emplace_update:
  assumes "i < n" "r < n"
  shows "cols_ok n m \<Longrightarrow> sorted_wrt Less (map fst m) \<Longrightarrow>
         col_val I env (map_update k (\<lambda>second. second[i := Expression_plus (second ! i) w])
                     (map_emplace k (replicate n (EConstant 0)) m)) a r
         = col_val I env m a r + (if a = k \<and> r = i then eval I env w else 0)"
proof (induction m)
  case Nil
  then show ?case using Less_irrefl[of k] assms
    by (auto simp: col_val_def nth_list_update)
next
  case (Cons e m)
  obtain k' v' where e: "e = (k', v')" by (cases e)
  from Cons.prems have lv: "length v' = n" and cm: "cols_ok n m"
    and s: "sorted_wrt Less (map fst m)" and a: "\<forall>x \<in> set (map fst m). Less k' x"
    unfolding e cols_ok_def by simp_all
  consider (lt) "Less k k'" | (gt) "\<not> Less k k'" "Less k' k" | (eq) "\<not> Less k k'" "\<not> Less k' k"
    by blast
  then show ?case
  proof cases
    case lt
    with a have "\<forall>x \<in> set (map fst m). Less k x" using Less_trans by blast
    then have "k \<notin> set (map fst m)" using Less_irrefl by blast
    then have nk: "map_of m k = None" by (simp add: map_of_eq_None_iff)
    from lt have kk: "k \<noteq> k'" using Less_irrefl by blast
    from lt kk nk show ?thesis unfolding e using Less_irrefl[of k] assms
      by (auto simp: col_val_def nth_list_update)
  next
    case gt
    then have kk: "k \<noteq> k'" using Less_irrefl by blast
    from gt kk Cons.IH[OF cm s] show ?thesis unfolding e
      by (auto simp: col_val_def)
  next
    case eq
    then have "k = k'" by (rule Less_total)
    with eq show ?thesis unfolding e using assms lv
      by (auto simp: col_val_def nth_list_update)
  qed
qed

lemma cols_ok_emplace_update:
  assumes "i < n" "cols_ok n m"
  shows "cols_ok n (map_update k (\<lambda>second. second[i := Expression_plus (second ! i) w])
                     (map_emplace k (replicate n (EConstant 0)) m))"
  using col_emplace_update[OF assms(1,2) assms(1)] by blast

lemma col_val_fold:
  assumes "i < n" "r < n"
  shows "cols_ok n m \<Longrightarrow> sorted_wrt Less (map fst m) \<Longrightarrow>
         col_val I env (fold (\<lambda>(w_j, alpha_j) m.
                 map_update alpha_j (\<lambda>second. second[i := Expression_plus (second ! i) w_j])
                   (map_emplace alpha_j (replicate n (EConstant 0)) m)) zs m) a r
         = col_val I env m a r
           + (if r = i then (\<Sum>p\<leftarrow>zs. if snd p = a then eval I env (fst p) else 0) else 0)"
proof (induction zs arbitrary: m)
  case Nil
  then show ?case by simp
next
  case (Cons z zs)
  obtain w k where z: "z = (w, k)" by (cases z)
  let ?m1 = "map_update k (\<lambda>second. second[i := Expression_plus (second ! i) w])
                   (map_emplace k (replicate n (EConstant 0)) m)"
  have c1: "cols_ok n ?m1" by (rule cols_ok_emplace_update[OF assms(1) Cons.prems(1)])
  have s1: "sorted_wrt Less (map fst ?m1)"
    unfolding map_fst_map_update by (rule sorted_keys_map_emplace[OF Cons.prems(2)])
  note S = col_val_emplace_update[OF assms Cons.prems, of I env k w a]
  from Cons.IH[OF c1 s1] S show ?case unfolding z by auto
qed

lemma fold_rows_weights:
  "fold (\<lambda>i acc. case acc of Inl err \<Rightarrow> Inl err
                   | Inr s \<Rightarrow> (case Decompose Expand (f ! i) P of
                                 Inl err \<Rightarrow> Inl err
                               | Inr r \<Rightarrow> Inr (row_step (length f) i r s)))
        is (Inr s) = Inr s' \<Longrightarrow>
   cols_ok (length f) (snd s) \<Longrightarrow> sorted_wrt Less (map fst (snd s)) \<Longrightarrow>
   distinct is \<Longrightarrow> set is \<subseteq> {..<length f} \<Longrightarrow> r < length f \<Longrightarrow>
   col_val I env (snd s') a r
   = col_val I env (snd s) a r
     + (if r \<in> set is
        then (case Decompose Expand (f ! r) P of Inr x \<Rightarrow> row_weight I env x a | Inl err \<Rightarrow> 0)
        else 0)"
proof (induction "is" arbitrary: s)
  case Nil
  then show ?case by simp
next
  case (Cons i "is")
  show ?case
  proof (cases "Decompose Expand (f ! i) P")
    case (Inl err)
    with Cons.prems(1) show ?thesis by (simp add: fold_Inl)
  next
    case (Inr x)
    obtain w alpha this_w0 where x: "x = (w, alpha, this_w0)" by (cases x)
    obtain w0 am where s: "s = (w0, am)" by (cases s)
    let ?am1 = "fold (\<lambda>(w_j, alpha_j) m.
                 map_update alpha_j (\<lambda>second. second[i := Expression_plus (second ! i) w_j])
                   (map_emplace alpha_j (replicate (length f) (EConstant 0)) m)) (zip w alpha) am"
    have s1: "row_step (length f) i x s = (w0[i := this_w0], ?am1)"
      unfolding x s row_step_def by simp
    from Cons.prems(1) Inr have f: "fold (\<lambda>i acc. case acc of Inl err \<Rightarrow> Inl err
                   | Inr s \<Rightarrow> (case Decompose Expand (f ! i) P of
                                 Inl err \<Rightarrow> Inl err
                               | Inr r \<Rightarrow> Inr (row_step (length f) i r s)))
        is (Inr (w0[i := this_w0], ?am1)) = Inr s'"
      unfolding s1[symmetric] by simp
    from Cons.prems have i: "i < length f" and ni: "i \<notin> set is" and d: "distinct is"
      and sub: "set is \<subseteq> {..<length f}" and c: "cols_ok (length f) am"
      and so: "sorted_wrt Less (map fst am)" and r: "r < length f"
      unfolding s by auto
    have c1: "cols_ok (length f) ?am1"
      using col_fold_emplace_update[OF i i c] by blast
    from Inr have "good x" unfolding Decompose_def using Visit_value by blast
    then have l: "length w = length alpha" unfolding x good_def by simp
    have so1: "sorted_wrt Less (map fst ?am1)"
      using keys_fold_emplace_update[OF l,
          where g = "\<lambda>w_j second. second[i := Expression_plus (second ! i) w_j]"
            and ?v0.0 = "replicate (length f) (EConstant 0)" and m = am] so
      unfolding keys_step_def by blast
    have v1: "col_val I env ?am1 a r
         = col_val I env am a r + (if r = i then row_weight I env x a else 0)"
      using col_val_fold[OF i r c so, of I env "zip w alpha" a]
      unfolding x row_weight_def by simp
    from Cons.IH[OF f _ _ d sub r] c1 so1
    have "col_val I env (snd s') a r
          = col_val I env ?am1 a r
            + (if r \<in> set is
               then (case Decompose Expand (f ! r) P of Inr x \<Rightarrow> row_weight I env x a | Inl err \<Rightarrow> 0)
               else 0)"
      by simp
    with v1 ni Inr show ?thesis unfolding s by auto
  qed
qed

lemma map_of_nth_distinct:
  "distinct (map fst m) \<Longrightarrow> j < length m \<Longrightarrow> map_of m (fst (m ! j)) = Some (snd (m ! j))"
  by (metis map_of_eq_Some_iff nth_mem prod.collapse)

lemma DecomposeLumpedParameters_weights:
  assumes "DecomposeLumpedParameters Expand f ps = Inr (Wm, \<alpha>v, w0v)"
    and "i < length f" "j < length \<alpha>v"
    and "Decompose Expand (f ! i) (Variables_of ps) = Inr x"
  shows "eval I env (Wm ! i ! j) = row_weight I env x (\<alpha>v ! j)"
proof -
  let ?s0 = "(replicate (length f) (EConstant 0), [] :: (Expression \<times> Expression list) list)"
  from assms(1) obtain w0 am where
    f: "fold (\<lambda>i acc. case acc of Inl err \<Rightarrow> Inl err
                   | Inr s \<Rightarrow> (case Decompose Expand (f ! i) (Variables_of ps) of
                                 Inl err \<Rightarrow> Inl err
                               | Inr r \<Rightarrow> Inr (row_step (length f) i r s)))
                [0..<length f] (Inr ?s0) = Inr (w0, am)"
    and W: "Wm = map (\<lambda>i. map (\<lambda>(key, val). val ! i) am) [0..<length f]"
    and A: "\<alpha>v = map fst am"
    by (auto simp: DecomposeLumpedParameters_def split: sum.splits)
  from DecomposeLumpedParameters_keys[OF assms(1)] have d: "distinct (map fst am)"
    unfolding A by blast
  from assms(3) have j: "j < length am" unfolding A by simp
  have c0: "cols_ok (length f) (snd ?s0)" by (simp add: cols_ok_def)
  have s0: "sorted_wrt Less (map fst (snd ?s0))" by simp
  have d0: "distinct [0..<length f]" by simp
  have sub0: "set [0..<length f] \<subseteq> {..<length f}" by auto
  have "col_val I env am (\<alpha>v ! j) i = row_weight I env x (\<alpha>v ! j)"
    using fold_rows_weights[OF f c0 s0 d0 sub0 assms(2), of I env "\<alpha>v ! j"] assms(2,4)
    by (simp add: col_val_def)
  moreover have "col_val I env am (\<alpha>v ! j) i = eval I env (snd (am ! j) ! i)"
    unfolding A col_val_def using map_of_nth_distinct[OF d j] j by simp
  moreover have "Wm ! i ! j = snd (am ! j) ! i"
    unfolding W using assms(2) j by (simp add: case_prod_beta)
  ultimately show ?thesis by simp
qed

lemma set_Variables_of [simp]: "set (Variables_of ps) = set ps"
  by (simp add: Variables_of_def)

lemma Visit_state_times_parameter:
  assumes "x \<notin> set P" "p \<in> set P"
  shows "Visit P (Expression_times (EVar x) (EVar p)) = Inr ([EVar x], [EVar p], EConstant 0)"
proof -
  from assms have ne: "x \<noteq> p" by auto
  show ?thesis
  proof (cases "get_id x < get_id p")
    case True
    then have "Expression_times (EVar x) (EVar p)
               = EMul 1 [(EVar x, EConstant 1), (EVar p, EConstant 1)]"
      using ne by (simp add: Expression_times_def is_one_def is_zero_def is_constant_def)
    then show ?thesis using assms
      by (simp add: VisitVariable_def Variables_include_def SimpleMultiplication_def is_one_def
          is_zero_def is_constant_def Expression_times_def outer_product_def)
  next
    case False
    then have "Expression_times (EVar x) (EVar p)
               = EMul 1 [(EVar p, EConstant 1), (EVar x, EConstant 1)]"
      using ne by (simp add: Expression_times_def is_one_def is_zero_def is_constant_def)
    then show ?thesis using assms
      by (simp add: VisitVariable_def Variables_include_def SimpleMultiplication_def is_one_def
          is_zero_def is_constant_def Expression_times_def outer_product_def)
  qed
qed

lemma shared_column_general:
  assumes "x1 \<notin> set ps" "x2 \<notin> set ps" "p \<in> set ps"
    and "Expand (Expression_times (EVar x1) (EVar p)) = Expression_times (EVar x1) (EVar p)"
    and "Expand (Expression_times (EVar x2) (EVar p)) = Expression_times (EVar x2) (EVar p)"
  shows "DecomposeLumpedParameters Expand
           [Expression_times (EVar x1) (EVar p), Expression_times (EVar x2) (EVar p)] ps
         = Inr ([[EVar x1], [EVar x2]], [EVar p], [EConstant 0, EConstant 0])"
proof -
  have v1: "Decompose Expand (Expression_times (EVar x1) (EVar p)) (Variables_of ps)
            = Inr ([EVar x1], [EVar p], EConstant 0)"
    unfolding Decompose_def assms(4) by (rule Visit_state_times_parameter) (use assms in simp_all)
  have v2: "Decompose Expand (Expression_times (EVar x2) (EVar p)) (Variables_of ps)
            = Inr ([EVar x2], [EVar p], EConstant 0)"
    unfolding Decompose_def assms(5) by (rule Visit_state_times_parameter) (use assms in simp_all)
  have l: "\<not> Less (EVar p) (EVar p)" by simp
  show ?thesis
    using l
    by (simp add: DecomposeLumpedParameters_def v1 v2 row_step_def upt_rec
        Expression_plus_def is_zero_def del: upt_Suc)
qed

text \<open>
  C2.  When the factorization of a vector succeeds, the basis vector lists, in key
  order and without repetition, exactly the basis expressions that the scalar
  factorizations of the rows return: structurally identical expressions of different rows
  (or of one row) share one column.  The entry of row \<open>i\<close> in the column of \<open>\<alpha>\<^sub>j\<close> has
  the value of the sum of the weights that the factorization of row \<open>i\<close> pairs with
  \<open>\<alpha>\<^sub>j\<close>.  In particular \<open>[x\<^sub>1 * p, x\<^sub>2 * p]\<close>, with \<open>p\<close> a parameter and \<open>x\<^sub>1\<close>, \<open>x\<^sub>2\<close> not,
  gives \<open>\<alpha> = [p]\<close>, \<open>W = [[x\<^sub>1], [x\<^sub>2]]\<close> and \<open>w0 = [0, 0]\<close> (the two products are in expanded
  form: the expansion returns them as they are).
\<close>

theorem shared_basis_columns:
  "(DecomposeLumpedParameters Expand f ps = Inr (Wm, \<alpha>v, w0v) \<longrightarrow>
      sorted_wrt Less \<alpha>v \<and> distinct \<alpha>v \<and>
      set \<alpha>v = (\<Union>i < length f. row_alphas Expand f (Variables_of ps) i) \<and>
      (\<forall>i < length f. \<forall>j < length \<alpha>v. \<forall>x.
          Decompose Expand (f ! i) (Variables_of ps) = Inr x \<longrightarrow>
          (\<forall>I env. eval I env (Wm ! i ! j) = row_weight I env x (\<alpha>v ! j)))) \<and>
   (x1 \<notin> set qs \<longrightarrow> x2 \<notin> set qs \<longrightarrow> p \<in> set qs \<longrightarrow>
    Expand (Expression_times (EVar x1) (EVar p)) = Expression_times (EVar x1) (EVar p) \<longrightarrow>
    Expand (Expression_times (EVar x2) (EVar p)) = Expression_times (EVar x2) (EVar p) \<longrightarrow>
      DecomposeLumpedParameters Expand
         [Expression_times (EVar x1) (EVar p), Expression_times (EVar x2) (EVar p)] qs
       = Inr ([[EVar x1], [EVar x2]], [EVar p], [EConstant 0, EConstant 0]))"
proof (intro conjI impI allI)
  assume d: "DecomposeLumpedParameters Expand f ps = Inr (Wm, \<alpha>v, w0v)"
  note K = DecomposeLumpedParameters_keys[OF d]
  from K show "sorted_wrt Less \<alpha>v" by blast
  from K show "distinct \<alpha>v" by blast
  from K show "set \<alpha>v = (\<Union>i < length f. row_alphas Expand f (Variables_of ps) i)" by blast
  fix i j x I env
  assume "i < length f" "j < length \<alpha>v" "Decompose Expand (f ! i) (Variables_of ps) = Inr x"
  then show "eval I env (Wm ! i ! j) = row_weight I env x (\<alpha>v ! j)"
    by (rule DecomposeLumpedParameters_weights[OF d])
next
  assume "x1 \<notin> set qs" "x2 \<notin> set qs" "p \<in> set qs"
    "Expand (Expression_times (EVar x1) (EVar p)) = Expression_times (EVar x1) (EVar p)"
    "Expand (Expression_times (EVar x2) (EVar p)) = Expression_times (EVar x2) (EVar p)"
  then show "DecomposeLumpedParameters Expand
         [Expression_times (EVar x1) (EVar p), Expression_times (EVar x2) (EVar p)] qs
       = Inr ([[EVar x1], [EVar x2]], [EVar p], [EConstant 0, EConstant 0])"
    by (rule shared_column_general)
qed

theorem shared_basis_columns_witness:
  "Variable 0 \<notin> set [Variable 3] \<and> Variable 2 \<notin> set [Variable 3] \<and>
   Variable 3 \<in> set [Variable 3] \<and>
   DecomposeLumpedParameters (\<lambda>e. e)
      [Expression_times (EVar (Variable 0)) (EVar (Variable 3)),
       Expression_times (EVar (Variable 2)) (EVar (Variable 3))] [Variable 3]
     = Inr ([[EVar (Variable 0)], [EVar (Variable 2)]], [EVar (Variable 3)],
            [EConstant 0, EConstant 0]) \<and>
   distinct [EVar (Variable 3)] \<and>
   (0::nat) < length [Expression_times (EVar (Variable 0)) (EVar (Variable 3)),
       Expression_times (EVar (Variable 2)) (EVar (Variable 3))] \<and>
   (0::nat) < length [EVar (Variable 3)] \<and>
   eval (\<lambda>k args. 0) (\<lambda>v. 5) ([[EVar (Variable 0)], [EVar (Variable 2)]] ! 0 ! 0)
     = row_weight (\<lambda>k args. 0) (\<lambda>v. 5) ([EVar (Variable 0)], [EVar (Variable 3)], EConstant 0)
         ([EVar (Variable 3)] ! 0)"
proof -
  let ?f = "[Expression_times (EVar (Variable 0)) (EVar (Variable 3)),
       Expression_times (EVar (Variable 2)) (EVar (Variable 3))]"
  let ?W = "[[EVar (Variable 0)], [EVar (Variable 2)]]"
  note T = shared_basis_columns[of "\<lambda>e. e" ?f "[Variable 3]" ?W "[EVar (Variable 3)]"
      "[EConstant 0, EConstant 0]" "Variable 0" "[Variable 3]" "Variable 2" "Variable 3"]
  have h: "Variable 0 \<notin> set [Variable 3]" "Variable 2 \<notin> set [Variable 3]"
    "Variable 3 \<in> set [Variable 3]" by simp_all
  note r = T[THEN conjunct2, rule_format, OF h refl refl]
  note K = T[THEN conjunct1, rule_format, OF r]
  from K have d: "distinct [EVar (Variable 3)]" by (elim conjE)
  have x: "Decompose (\<lambda>e. e) (?f ! 0) (Variables_of [Variable 3])
           = Inr ([EVar (Variable 0)], [EVar (Variable 3)], EConstant 0)"
    unfolding Decompose_def by (simp del: Visit.simps add: Visit_state_times_parameter)
  have i: "(0::nat) < length ?f" and j: "(0::nat) < length [EVar (Variable 3)]" by simp_all
  from K have "\<forall>i < length ?f. \<forall>j < length [EVar (Variable 3)]. \<forall>x.
          Decompose (\<lambda>e. e) (?f ! i) (Variables_of [Variable 3]) = Inr x \<longrightarrow>
          (\<forall>I env. eval I env (?W ! i ! j) = row_weight I env x ([EVar (Variable 3)] ! j))"
    by (elim conjE)
  from this[rule_format, OF i j x]
  have w: "eval (\<lambda>k args. 0) (\<lambda>v. 5) (?W ! 0 ! 0)
     = row_weight (\<lambda>k args. 0) (\<lambda>v. 5) ([EVar (Variable 0)], [EVar (Variable 3)], EConstant 0)
         ([EVar (Variable 3)] ! 0)" .
  from h r d i j w show ?thesis by (intro conjI)
qed

subsection \<open>Merging in sums\<close>

lemma times_var_var:
  assumes "a \<noteq> p"
  shows "Expression_times (EVar a) (EVar p)
         = EMul 1 (if get_id a < get_id p
                   then [(EVar a, EConstant 1), (EVar p, EConstant 1)]
                   else [(EVar p, EConstant 1), (EVar a, EConstant 1)])"
  using assms by (simp add: Expression_times_def is_one_def is_zero_def is_constant_def)

lemma times_var_var_inj:
  assumes "a \<noteq> p" "b \<noteq> p" "a \<noteq> b"
  shows "Expression_times (EVar a) (EVar p) \<noteq> Expression_times (EVar b) (EVar p)"
  unfolding times_var_var[OF assms(1)] times_var_var[OF assms(2)]
  using assms by (auto split: if_splits)

lemma Visit_two_terms:
  assumes "Visit P u = Inr ([EVar a], [q], EConstant 0)"
    and "Visit P v = Inr ([EVar b], [q], EConstant 0)"
    and "a \<noteq> b"
  shows "Visit P (EAdd 0 [(u, 1), (v, 1)])
         = Inr (if get_id a < get_id b then [EVar a, EVar b] else [EVar b, EVar a],
                [q, q], EConstant 0)"
proof -
  from assms(3) have "get_id a \<noteq> get_id b" by (metis Variable.expand)
  then show ?thesis
    using assms(1,2)
    by (auto simp: addition_step_def Expression_plus_def Expression_times_def is_zero_def
        is_one_def is_constant_def)
qed

lemma plus_var_var_commute:
  "a \<noteq> b \<Longrightarrow> Expression_plus (EVar a) (EVar b) = Expression_plus (EVar b) (EVar a)"
  by (auto simp: Expression_plus_def is_zero_def is_constant_def Variable.expand)

lemma addition_not_merged_general:
  assumes "a \<notin> set ps" "b \<notin> set ps" "p \<in> set ps" "a \<noteq> b"
    and E: "e = Expression_plus (Expression_times (EVar a) (EVar p))
                                (Expression_times (EVar b) (EVar p))"
    and X: "Expand e = e"
  shows "Decompose Expand e (Variables_of ps)
           = Inr (if get_id a < get_id b then [EVar a, EVar b] else [EVar b, EVar a],
                  [EVar p, EVar p], EConstant 0) \<and>
         DecomposeLumpedParameters Expand [e] ps
           = Inr ([[Expression_plus (EVar a) (EVar b)]], [EVar p], [EConstant 0])"
proof -
  let ?t1 = "Expression_times (EVar a) (EVar p)"
  let ?t2 = "Expression_times (EVar b) (EVar p)"
  let ?P = "Variables_of ps"
  from assms have ap: "a \<noteq> p" and bp: "b \<noteq> p" by auto
  have v1: "Visit ?P ?t1 = Inr ([EVar a], [EVar p], EConstant 0)"
    by (rule Visit_state_times_parameter) (use assms in simp_all)
  have v2: "Visit ?P ?t2 = Inr ([EVar b], [EVar p], EConstant 0)"
    by (rule Visit_state_times_parameter) (use assms in simp_all)
  have ne: "?t1 \<noteq> ?t2" by (rule times_var_var_inj[OF ap bp assms(4)])
  have n1: "\<not> is_zero ?t1" "\<not> is_constant ?t1"
    unfolding times_var_var[OF ap] by (simp_all add: is_zero_def is_constant_def)
  have n2: "\<not> is_zero ?t2" "\<not> is_constant ?t2"
    unfolding times_var_var[OF bp] by (simp_all add: is_zero_def is_constant_def)
  have e: "e = (if Less ?t1 ?t2 then EAdd 0 [(?t1, 1), (?t2, 1)] else EAdd 0 [(?t2, 1), (?t1, 1)])"
    unfolding E using ne n1 n2 by (simp add: Expression_plus_def)
  let ?r = "(if get_id a < get_id b then [EVar a, EVar b] else [EVar b, EVar a],
             [EVar p, EVar p], EConstant 0)"
  have V: "Visit ?P e = Inr ?r"
  proof (cases "Less ?t1 ?t2")
    case True
    with e have "e = EAdd 0 [(?t1, 1), (?t2, 1)]" by simp
    then show ?thesis using Visit_two_terms[OF v1 v2 assms(4)] by simp
  next
    case False
    with e have e': "e = EAdd 0 [(?t2, 1), (?t1, 1)]" by simp
    from assms(4) have ba: "b \<noteq> a" by simp
    from assms(4) have "get_id a \<noteq> get_id b" by (metis Variable.expand)
    then show ?thesis unfolding e' using Visit_two_terms[OF v2 v1 ba] by auto
  qed
  then have D: "Decompose Expand e ?P = Inr ?r" unfolding Decompose_def X .
  have l: "\<not> Less (EVar p) (EVar p)" by simp
  have "DecomposeLumpedParameters Expand [e] ps
           = Inr ([[Expression_plus (EVar a) (EVar b)]], [EVar p], [EConstant 0])"
  proof (cases "get_id a < get_id b")
    case True
    then show ?thesis using l D
      by (simp add: DecomposeLumpedParameters_def row_step_def Expression_plus_def is_zero_def
          is_constant_def)
  next
    case False
    then show ?thesis using l D plus_var_var_commute[OF assms(4)]
      by (simp add: DecomposeLumpedParameters_def row_step_def)
         (simp add: Expression_plus_def is_zero_def is_constant_def)
  qed
  with D show ?thesis by simp
qed

text \<open>
  C3 (amended).  For \<open>a * p\<^sub>1 + b * p\<^sub>1\<close> with distinct state variables \<open>a\<close>, \<open>b\<close> and a
  parameter \<open>p\<^sub>1\<close> the scalar factorization keys its dictionary by the weights \<open>a\<close> and
  \<open>b\<close>, which differ, and returns the two entries \<open>(a, p\<^sub>1)\<close> and \<open>(b, p\<^sub>1)\<close> in key order;
  \<^verbatim>\<open>DecomposeLumpedParameters\<close>, whose dictionary is keyed by the basis expression,
  merges them into the single column \<open>\<alpha> = p\<^sub>1\<close> with the weight \<open>a + b\<close>.
\<close>

theorem addition_merges_in_driver:
  assumes "a \<notin> set ps" "b \<notin> set ps" "p \<in> set ps" "a \<noteq> b"
    and "Expand (Expression_plus (Expression_times (EVar a) (EVar p))
                                 (Expression_times (EVar b) (EVar p)))
         = Expression_plus (Expression_times (EVar a) (EVar p))
                           (Expression_times (EVar b) (EVar p))"
  shows "Decompose Expand (Expression_plus (Expression_times (EVar a) (EVar p))
                                           (Expression_times (EVar b) (EVar p)))
            (Variables_of ps)
           = Inr (if get_id a < get_id b then [EVar a, EVar b] else [EVar b, EVar a],
                  [EVar p, EVar p], EConstant 0) \<and>
         DecomposeLumpedParameters Expand
            [Expression_plus (Expression_times (EVar a) (EVar p))
                             (Expression_times (EVar b) (EVar p))] ps
           = Inr ([[Expression_plus (EVar a) (EVar b)]], [EVar p], [EConstant 0])"
  using addition_not_merged_general[of a ps b p
      "Expression_plus (Expression_times (EVar a) (EVar p)) (Expression_times (EVar b) (EVar p))"
      Expand, OF assms(1-4) refl assms(5)] .

lemma sum_of_products_example:
  "Expression_plus (Expression_times (EVar (Variable 0)) (EVar (Variable 3)))
                   (Expression_times (EVar (Variable 2)) (EVar (Variable 3)))
   = EAdd 0 [(EMul 1 [(EVar (Variable 0), EConstant 1), (EVar (Variable 3), EConstant 1)], 1),
             (EMul 1 [(EVar (Variable 2), EConstant 1), (EVar (Variable 3), EConstant 1)], 1)]"
  by (simp add: Expression_plus_def Expression_times_def is_one_def is_zero_def is_constant_def)

theorem addition_merges_in_driver_witness:
  "Variable 0 \<notin> set [Variable 3] \<and> Variable 2 \<notin> set [Variable 3] \<and>
   Variable 3 \<in> set [Variable 3] \<and> Variable 0 \<noteq> Variable 2 \<and>
   DecomposeLumpedParameters (\<lambda>e. e)
      [Expression_plus (Expression_times (EVar (Variable 0)) (EVar (Variable 3)))
                       (Expression_times (EVar (Variable 2)) (EVar (Variable 3)))] [Variable 3]
     = Inr ([[Expression_plus (EVar (Variable 0)) (EVar (Variable 2))]], [EVar (Variable 3)],
            [EConstant 0]) \<and>
   Expression_plus (EVar (Variable 0)) (EVar (Variable 2))
     = EAdd 0 [(EVar (Variable 0), 1), (EVar (Variable 2), 1)]"
proof -
  have h: "Variable 0 \<notin> set [Variable 3]" "Variable 2 \<notin> set [Variable 3]"
    "Variable 3 \<in> set [Variable 3]" "Variable 0 \<noteq> Variable 2" by simp_all
  note T = addition_merges_in_driver[of "Variable 0" "[Variable 3]" "Variable 2" "Variable 3"
      "\<lambda>e. e", OF h refl]
  have s: "Expression_plus (EVar (Variable 0)) (EVar (Variable 2))
     = EAdd 0 [(EVar (Variable 0), 1), (EVar (Variable 2), 1)]"
    by (simp add: Expression_plus_def is_zero_def is_constant_def)
  from h T[THEN conjunct2] s show ?thesis by (intro conjI)
qed

text \<open>
  C3 as stated: the addition merging of the scalar factorization returns the single
  entry \<open>(a + b, p\<^sub>1)\<close>.  It returns two entries.
\<close>

theorem addition_keeps_two_entries:
  "Visit [Variable 3]
     (EAdd 0 [(EMul 1 [(EVar (Variable 0), EConstant 1), (EVar (Variable 3), EConstant 1)], 1),
              (EMul 1 [(EVar (Variable 2), EConstant 1), (EVar (Variable 3), EConstant 1)], 1)])
   = Inr ([EVar (Variable 0), EVar (Variable 2)], [EVar (Variable 3), EVar (Variable 3)],
          EConstant 0) \<and>
   Visit [Variable 3]
     (EAdd 0 [(EMul 1 [(EVar (Variable 0), EConstant 1), (EVar (Variable 3), EConstant 1)], 1),
              (EMul 1 [(EVar (Variable 2), EConstant 1), (EVar (Variable 3), EConstant 1)], 1)])
   \<noteq> Inr ([EAdd 0 [(EVar (Variable 0), 1), (EVar (Variable 2), 1)]], [EVar (Variable 3)],
          EConstant 0)"
proof -
  have "Visit [Variable 3]
     (EAdd 0 [(EMul 1 [(EVar (Variable 0), EConstant 1), (EVar (Variable 3), EConstant 1)], 1),
              (EMul 1 [(EVar (Variable 2), EConstant 1), (EVar (Variable 3), EConstant 1)], 1)])
   = Inr ([EVar (Variable 0), EVar (Variable 2)], [EVar (Variable 3), EVar (Variable 3)],
          EConstant 0)"
    using Visit_two_terms[OF Visit_product_example Visit_product_example2] by simp
  then show ?thesis by simp
qed

section \<open>Affine matrix predicate\<close>

text \<open>
  Modelled from the spec: \<^verbatim>\<open>Expression::is_polynomial\<close> (not part of
  \<^verbatim>\<open>decompose.cc\<close>).  An expression is a polynomial when it is built from constants and
  variables by sums, products, powers with a constant non-negative integer exponent and
  division by a constant; it takes no variable set.
\<close>

definition is_non_negative_integer :: "real \<Rightarrow> bool" where
  "is_non_negative_integer v = (0 \<le> v \<and> v = of_int \<lfloor>v\<rfloor>)"

fun is_polynomial :: "Expression \<Rightarrow> bool" where
  "is_polynomial (EConstant c) = True"
| "is_polynomial (EVar v) = True"
| "is_polynomial (EAdd c ts) = list_all (\<lambda>p. is_polynomial (fst p)) ts"
| "is_polynomial (EMul c fs) =
     list_all (\<lambda>p. is_polynomial (fst p) \<and> is_constant (snd p) \<and>
                     is_non_negative_integer (get_constant_value (snd p))) fs"
| "is_polynomial (EPow b x) =
     (is_polynomial b \<and> is_constant x \<and> is_non_negative_integer (get_constant_value x))"
| "is_polynomial (ENonPoly Div [a, b]) = (is_polynomial a \<and> is_constant b)"
| "is_polynomial (ENonPoly k args) = False"

text \<open>
  \<^verbatim>\<open>IsAffineVisitor\<close> and the two overloads of \<^verbatim>\<open>IsAffine\<close> (lines 25-83).  The matrix
  is the list of its entries in the order in which \<^verbatim>\<open>visit\<close> passes them to the visitor;
  \<open>variables\<close> is \<open>None\<close> for the overload without a variable set.  The total degree
  of \<^verbatim>\<open>Polynomial{e, variables}\<close>, respectively \<^verbatim>\<open>Polynomial{e}\<close>, is computed by the
  polynomial type and is a parameter.
\<close>

definition IsNotAffine ::
  "(Expression \<Rightarrow> Variables option \<Rightarrow> nat) \<Rightarrow> Variables option \<Rightarrow> Expression \<Rightarrow> bool" where
  "IsNotAffine TotalDegree variables e =
     (if \<not> is_polynomial e then True else TotalDegree e variables > 1)"

definition IsAffineVisitor ::
  "(Expression \<Rightarrow> Variables option \<Rightarrow> nat) \<Rightarrow> Variables option \<Rightarrow> Expression list \<Rightarrow> bool" where
  "IsAffineVisitor TotalDegree variables m =
     (let found_non_affine_element =
            fold (\<lambda>e found. found \<or> IsNotAffine TotalDegree variables e) m False
      in \<not> found_non_affine_element)"

definition IsAffine ::
  "(Expression \<Rightarrow> Variables option \<Rightarrow> nat) \<Rightarrow> Expression list \<Rightarrow> Variables option \<Rightarrow> bool" where
  "IsAffine TotalDegree m vars =
     (if length m = 0 then True else IsAffineVisitor TotalDegree vars m)"

lemma fold_found: "fold (\<lambda>e found. found \<or> P e) m b = (b \<or> (\<exists>e \<in> set m. P e))"
  by (induction m arbitrary: b) auto

lemma IsAffine_iff:
  "IsAffine TotalDegree m vars = (\<forall>e \<in> set m. \<not> IsNotAffine TotalDegree vars e)"
  by (auto simp: IsAffine_def IsAffineVisitor_def fold_found)

lemma IsAffine_non_polynomial:
  "e \<in> set m \<Longrightarrow> \<not> is_polynomial e \<Longrightarrow> \<not> IsAffine TotalDegree m vars"
  by (auto simp: IsAffine_iff IsNotAffine_def)

text \<open>
  C7.  The claim is that \<open>sin(y) + x\<close>, restricted to \<open>{x}\<close>, is classified as affine.
  \<^verbatim>\<open>IsNotAffine\<close> tests \<^verbatim>\<open>e.is_polynomial()\<close> first, which does not look at the
  restricting set, so the entry is rejected whatever the degree computation returns.
\<close>

theorem IsAffine_rejects_sin_plus_x:
  "IsAffine TotalDegree
     [EAdd 0 [(EVar (Variable 0), 1), (ENonPoly Sin [EVar (Variable 1)], 1)]]
     (Some [Variable 0]) = False"
  by (simp add: IsAffine_def IsAffineVisitor_def IsNotAffine_def)

section \<open>Double-precision numbers\<close>

text \<open>
  The matrices, vectors and scalars that the decomposers fill are C++ \<^verbatim>\<open>double\<close>s (IEEE 754
  binary64).  A double is a finite value, an infinity or NaN; the finite values are the
  reals \<open>m * 2\<^sup>e\<close> with \<open>\<bar>m\<bar> < 2\<^sup>5\<^sup>3\<close> and \<open>-1074 \<le> e \<le> 971\<close>.  The sign of zero is not
  modelled: the two zeros compare equal and have the same value.
\<close>

datatype double = Finite real | PlusInfinity | MinusInfinity | NaN

text \<open>
  The result of an arithmetic operation is the exact result rounded to the nearest double,
  a tie going to the even significand; an exact result of magnitude at least
  \<open>2\<^sup>1\<^sup>0\<^sup>2\<^sup>4 - 2\<^sup>9\<^sup>7\<^sup>0\<close> rounds to an infinity.  \<open>ulp_exponent r\<close> is the exponent of the unit in
  the last place at \<open>r\<close>: the least \<open>e \<ge> -1074\<close> with \<open>\<bar>r\<bar> < 2\<^sup>e\<^sup>+\<^sup>5\<^sup>3\<close>.
\<close>

definition round_half_even :: "real \<Rightarrow> int" where
  "round_half_even x =
     (let f = \<lfloor>x\<rfloor>; d = x - of_int f
      in if d < 1/2 then f else if 1/2 < d then f + 1 else if even f then f else f + 1)"

definition exponents :: "int list" where
  "exponents = [-1074..971]"

definition ulp_exponent :: "real \<Rightarrow> int" where
  "ulp_exponent r =
     (case find (\<lambda>e. \<bar>r\<bar> < 2 powi (e + 53)) exponents of Some e \<Rightarrow> e | None \<Rightarrow> 971)"

definition round_to_double :: "real \<Rightarrow> double" where
  "round_to_double r =
     (if 2 ^ 1024 - 2 ^ 970 \<le> r then PlusInfinity
      else if r \<le> - (2 ^ 1024 - 2 ^ 970) then MinusInfinity
      else Finite (of_int (round_half_even (r / 2 powi ulp_exponent r)) * 2 powi ulp_exponent r))"

text \<open>
  A real is a double when rounding leaves it unchanged.  The constants of this
  development's expressions are reals; those of a Drake expression are the doubles among
  them.
\<close>

definition is_double :: "real \<Rightarrow> bool" where
  "is_double r = (round_to_double r = Finite r)"

lemma round_half_even_of_int [simp]: "round_half_even (of_int k) = k"
  by (simp add: round_half_even_def)

lemma set_exponents: "set exponents = {-1074..971}"
  unfolding exponents_def by (rule set_upto)

lemma ulp_exponent_range: "-1074 \<le> ulp_exponent r \<and> ulp_exponent r \<le> 971"
proof (cases "find (\<lambda>e. \<bar>r\<bar> < 2 powi (e + 53)) exponents")
  case None
  then show ?thesis by (simp add: ulp_exponent_def)
next
  case (Some e)
  then have "e \<in> set exponents" by (auto simp: find_Some_iff)
  then have "-1074 \<le> e \<and> e \<le> 971" unfolding set_exponents by simp
  with Some show ?thesis by (simp add: ulp_exponent_def)
qed

lemma find_upto_least:
  assumes "a \<le> e" "e \<le> b" "P e"
  shows "\<exists>e'. find P [a..b] = Some e' \<and> a \<le> e' \<and> e' \<le> e"
proof -
  have "e \<in> set [a..b]" using assms by simp
  with assms(3) have "find P [a..b] \<noteq> None" by (auto simp: find_None_iff)
  then obtain e' where f: "find P [a..b] = Some e'" by auto
  then obtain i where i: "i < length [a..b]" "P ([a..b] ! i)" "e' = [a..b] ! i"
    "\<forall>j<i. \<not> P ([a..b] ! j)" by (auto simp: find_Some_iff)
  have e': "e' = a + int i" using i(1,3) by (simp add: nth_upto)
  have "e' \<le> e"
  proof (rule ccontr)
    assume "\<not> e' \<le> e"
    then have lt: "nat (e - a) < i" using e' assms(1) by linarith
    then have "\<not> P ([a..b] ! nat (e - a))" using i(4) by blast
    moreover have "[a..b] ! nat (e - a) = e" using assms(1,2) by (simp add: nth_upto)
    ultimately show False using assms(3) by simp
  qed
  with f e' show ?thesis by simp
qed

lemma is_double_repr:
  assumes "\<bar>m\<bar> < 2 ^ 53" "-1074 \<le> e" "e \<le> 971"
  shows "is_double (of_int m * 2 powi e)"
proof -
  let ?r = "of_int m * 2 powi e :: real"
  have ab: "\<bar>?r\<bar> = of_int \<bar>m\<bar> * 2 powi e" by (simp add: abs_mult)
  have "of_int \<bar>m\<bar> < (2 ^ 53 :: real)" using assms(1)
    by (metis of_int_less_iff of_int_numeral of_int_power)
  then have P: "\<bar>?r\<bar> < 2 powi (e + 53)"
    unfolding ab by (simp add: power_int_add algebra_simps)
  from find_upto_least[of "-1074" e 971 "\<lambda>e. \<bar>?r\<bar> < 2 powi (e + 53)", OF assms(2,3) P]
  obtain e' where f: "find (\<lambda>e. \<bar>?r\<bar> < 2 powi (e + 53)) exponents = Some e'"
    and le: "e' \<le> e" unfolding exponents_def by blast
  have u: "ulp_exponent ?r = e'" using f by (simp add: ulp_exponent_def)
  have q: "?r / 2 powi e' = of_int (m * 2 ^ nat (e - e'))"
  proof -
    have "(2::real) powi e = 2 powi (e - e') * 2 powi e'"
      by (simp add: power_int_add[symmetric])
    moreover have "(2::real) powi (e - e') = 2 ^ nat (e - e')"
      using le by (simp add: power_int_def)
    ultimately show ?thesis by simp
  qed
  have bk: "of_int (m * 2 ^ nat (e - e')) * 2 powi e' = ?r"
    using q by (metis divide_eq_eq power_int_eq_0_iff zero_neq_numeral)
  have "of_int \<bar>m\<bar> \<le> (2 ^ 53 - 1 :: real)"
  proof -
    from assms(1) have "\<bar>m\<bar> \<le> 2 ^ 53 - 1" by simp
    then have "(of_int \<bar>m\<bar> :: real) \<le> of_int (2 ^ 53 - 1)" by (rule of_int_le_iff[THEN iffD2])
    then show ?thesis by simp
  qed
  moreover have "(2::real) powi e \<le> 2 powi 971" by (rule power_int_increasing) (use assms(3) in simp_all)
  ultimately have "\<bar>?r\<bar> \<le> (2 ^ 53 - 1) * 2 powi 971"
    unfolding ab by (intro mult_mono) simp_all
  also have "\<dots> < (2 ^ 1024 - 2 ^ 970 :: real)" by simp
  finally have b: "\<bar>?r\<bar> < 2 ^ 1024 - 2 ^ 970" .
  then have "\<not> 2 ^ 1024 - 2 ^ 970 \<le> ?r" "\<not> ?r \<le> - (2 ^ 1024 - 2 ^ 970)" by linarith+
  then show ?thesis
    unfolding is_double_def round_to_double_def u q round_half_even_of_int bk by simp
qed


lemma is_double_imp_repr:
  assumes "is_double r"
  shows "\<exists>m e. \<bar>m\<bar> < 2 ^ 53 \<and> -1074 \<le> e \<and> e \<le> 971 \<and> r = of_int m * 2 powi e"
proof -
  let ?e = "ulp_exponent r"
  let ?m = "round_half_even (r / 2 powi ?e)"
  from assms have n1: "\<not> 2 ^ 1024 - 2 ^ 970 \<le> r" and n2: "\<not> r \<le> - (2 ^ 1024 - 2 ^ 970)"
    unfolding is_double_def round_to_double_def by (auto split: if_splits)
  with assms have r: "r = of_int ?m * 2 powi ?e"
    unfolding is_double_def round_to_double_def by simp
  have small: "\<bar>r\<bar> < 2 ^ 1024" using n1 n2 by simp
  have "\<bar>r\<bar> < 2 powi (?e + 53)"
  proof (cases "find (\<lambda>e. \<bar>r\<bar> < 2 powi (e + 53)) exponents")
    case None
    then have "?e = 971" by (simp add: ulp_exponent_def)
    then have "(2::real) powi (?e + 53) = 2 ^ 1024" by (simp add: power_int_def)
    with small show ?thesis by simp
  next
    case (Some e)
    then have "\<bar>r\<bar> < 2 powi (e + 53)" by (auto simp: find_Some_iff)
    with Some show ?thesis by (simp add: ulp_exponent_def)
  qed
  then have "\<bar>of_int ?m * 2 powi ?e\<bar> < (2::real) ^ 53 * 2 powi ?e"
    using r by (simp add: power_int_add algebra_simps)
  then have "\<bar>of_int ?m :: real\<bar> * 2 powi ?e < 2 ^ 53 * 2 powi ?e"
    by (simp add: abs_mult)
  then have "\<bar>of_int ?m :: real\<bar> < 2 ^ 53" by simp
  then have "(of_int \<bar>?m\<bar> :: real) < of_int (2 ^ 53)" by simp
  then have "\<bar>?m\<bar> < 2 ^ 53" by (rule of_int_less_iff[THEN iffD1])
  with r ulp_exponent_range[of r] show ?thesis by blast
qed

lemma is_double_iff:
  "is_double r \<longleftrightarrow>
   (\<exists>m e. \<bar>m\<bar> < 2 ^ 53 \<and> -1074 \<le> e \<and> e \<le> 971 \<and> r = of_int m * 2 powi e)"
  using is_double_imp_repr is_double_repr by blast







section \<open>Quadratic-form decomposer\<close>

text \<open>
  Modelled from the spec: the monomial and polynomial types (not part of
  \<^verbatim>\<open>decompose.cc\<close>).  A monomial is its map from variables to positive exponents
  (\<^verbatim>\<open>get_powers\<close>), in iteration order, that is by ascending variable id, and its total
  degree is the sum of the exponents; a polynomial is its map from monomials to
  coefficient expressions (\<^verbatim>\<open>monomial_to_coefficient_map\<close>), in iteration order.
\<close>

type_synonym Monomial = "(Variable \<times> nat) list"

definition total_degree :: "Monomial \<Rightarrow> nat" where
  "total_degree m = sum_list (map snd m)"

type_synonym Polynomial = "(Monomial \<times> Expression) list"


















subsection \<open>Every entry is written once\<close>
































section \<open>Linear decomposer\<close>

text \<open>
  Modelled from the spec: \<^verbatim>\<open>Polynomial::TotalDegree\<close> (not part of \<^verbatim>\<open>decompose.cc\<close>) is
  the largest total degree of a monomial of the coefficient map, and 0 for the empty map.
\<close>

definition Polynomial_TotalDegree :: "Polynomial \<Rightarrow> nat" where
  "Polynomial_TotalDegree p = fold max (map (\<lambda>t. total_degree (fst t)) p) 0"

text \<open>
  \<^verbatim>\<open>FindCoefficientAndFill\<close> (lines 98-115) looks a monomial up in the coefficient map;
  the result is the double it stores in \<^verbatim>\<open>M(i)\<close>.
\<close>

definition FindCoefficientAndFill :: "Polynomial \<Rightarrow> Monomial \<Rightarrow> error + double" where
  "FindCoefficientAndFill coeff_map m =
     (case map_of coeff_map m of
        Some coefficient \<Rightarrow>
          if \<not> is_constant coefficient then Inl (NonConstantCoefficient coefficient)
          else Inr (Finite (get_constant_value coefficient))
      | None \<Rightarrow> Inr (Finite 0))"

text \<open>
  \<^verbatim>\<open>DecomposeLinearExpressions\<close> (lines 120-154).  \<^verbatim>\<open>Polynomial{e, Variables{vars}}\<close>, the
  polynomial of \<open>e\<close> in the indeterminates \<open>vars\<close>, is the parameter \<open>Poly\<close>: the constructor
  is not part of \<^verbatim>\<open>decompose.cc\<close>.  \<open>fill_row\<close> is the inner loop over the variables,
  \<open>linear_row\<close> the body of the outer loop and \<open>linear_rows\<close> the outer loop over the
  expressions; the first failure ends the call.  The matrix \<open>M\<close>, passed by a pointer
  that is not null, is the list of its rows, and the caller passes its dimensions.
\<close>

fun fill_row :: "Polynomial \<Rightarrow> Variable list \<Rightarrow> error + double list" where
  "fill_row coeff_map [] = Inr []"
| "fill_row coeff_map (var # vars) =
     (case FindCoefficientAndFill coeff_map [(var, 1)] of
        Inl err \<Rightarrow> Inl err
      | Inr M_ij \<Rightarrow>
          (case fill_row coeff_map vars of Inl err \<Rightarrow> Inl err | Inr row \<Rightarrow> Inr (M_ij # row)))"

definition linear_row ::
  "(Expression \<Rightarrow> Variables \<Rightarrow> Polynomial) \<Rightarrow> Variable list \<Rightarrow> Expression
     \<Rightarrow> error + double list" where
  "linear_row Poly vars e =
     (if \<not> is_polynomial e then Inl (InputNotPolynomial e)
      else
        let p = Poly e (Variables_of vars)
        in if Polynomial_TotalDegree p > 1 then Inl (InputNotAffine e)
           else
             let coeff_map = p
             in (case map_of coeff_map [] of
                   Some constant_term \<Rightarrow> Inl (UnexpectedConstantTerm e constant_term)
                 | None \<Rightarrow> fill_row coeff_map vars))"

fun linear_rows ::
  "(Expression \<Rightarrow> Variables \<Rightarrow> Polynomial) \<Rightarrow> Variable list \<Rightarrow> Expression list
     \<Rightarrow> error + double list list" where
  "linear_rows Poly vars [] = Inr []"
| "linear_rows Poly vars (e # expressions) =
     (case linear_row Poly vars e of
        Inl err \<Rightarrow> Inl err
      | Inr row \<Rightarrow> (case linear_rows Poly vars expressions of
                      Inl err \<Rightarrow> Inl err | Inr M \<Rightarrow> Inr (row # M)))"

definition DecomposeLinearExpressions ::
  "(Expression \<Rightarrow> Variables \<Rightarrow> Polynomial) \<Rightarrow> Expression list \<Rightarrow> Variable list \<Rightarrow> nat \<Rightarrow> nat
     \<Rightarrow> error + double list list" where
  "DecomposeLinearExpressions Poly expressions vars M_rows M_cols =
     (if \<not> (M_rows = length expressions \<and> M_cols = length vars) then Inl DemandFailure
      else linear_rows Poly vars expressions)"

text \<open>
  Modelled from the spec: the coefficient map of the affine expression
  \<open>c\<^sub>1 x\<^sub>1 + \<dots> + c\<^sub>n x\<^sub>n + c\<^sub>0\<close> in the indeterminates \<open>x\<close> has one entry for every nonzero
  coefficient, under the monomial \<open>x\<^sub>j\<close>, and the entry of \<open>c\<^sub>0\<close>, if it is not zero, under the
  empty monomial.  A row \<open>(e, cs, c\<^sub>0)\<close> is affine when \<open>e\<close> is a polynomial and its
  coefficient map has exactly these entries, in any order.
\<close>

definition affine_polynomial :: "Variable list \<Rightarrow> real list \<Rightarrow> real \<Rightarrow> Polynomial" where
  "affine_polynomial vars cs c0 =
     (if c0 = 0 then [] else [([], EConstant c0)])
     @ map (\<lambda>t. ([(fst t, 1)], EConstant (snd t))) (filter (\<lambda>t. snd t \<noteq> 0) (zip vars cs))"

definition affine_row ::
  "(Expression \<Rightarrow> Variables \<Rightarrow> Polynomial) \<Rightarrow> Variable list
     \<Rightarrow> Expression \<times> real list \<times> real \<Rightarrow> bool" where
  "affine_row Poly vars r =
     (case r of (e, cs, c0) \<Rightarrow>
        length cs = length vars \<and> is_polynomial e \<and>
        distinct (map fst (Poly e (Variables_of vars))) \<and>
        set (Poly e (Variables_of vars)) = set (affine_polynomial vars cs c0))"

subsection \<open>Affine rows\<close>

lemma fold_max_le: "fold max xs (a::nat) \<le> b \<longleftrightarrow> a \<le> b \<and> (\<forall>x \<in> set xs. x \<le> b)"
  by (induction xs arbitrary: a) auto

lemma TotalDegree_affine:
  assumes "set P = set (affine_polynomial vars cs c0)"
  shows "Polynomial_TotalDegree P \<le> 1"
proof -
  have "\<forall>t \<in> set (affine_polynomial vars cs c0). total_degree (fst t) \<le> 1"
    by (auto simp: affine_polynomial_def total_degree_def)
  with assms show ?thesis unfolding Polynomial_TotalDegree_def fold_max_le by simp
qed

lemma map_of_linear_terms:
  "distinct (map fst zs) \<Longrightarrow>
   map_of (map (\<lambda>t. ([(fst t, 1::nat)], EConstant (snd t))) (filter (\<lambda>t. snd t \<noteq> 0) zs)) [(v, 1)]
   = (case map_of zs v of Some k \<Rightarrow> if k \<noteq> 0 then Some (EConstant k) else None | None \<Rightarrow> None)"
proof (induction zs)
  case Nil
  then show ?case by simp
next
  case (Cons z zs)
  obtain u k where z: "z = (u, k)" by (cases z)
  from Cons.prems have d: "distinct (map fst zs)" and n: "u \<notin> fst ` set zs" unfolding z by simp_all
  from n have nn: "map_of zs u = None" by (simp add: map_of_eq_None_iff)
  show ?case unfolding z using Cons.IH[OF d] nn by auto
qed

lemma map_of_affine_constant:
  "map_of (affine_polynomial vars cs c0) [] = (if c0 = 0 then None else Some (EConstant c0))"
proof -
  have "map_of (map (\<lambda>t. ([(fst t, 1::nat)], EConstant (snd t))) zs) [] = None"
    for zs :: "(Variable \<times> real) list"
    by (induction zs) auto
  then show ?thesis by (simp add: affine_polynomial_def)
qed

lemma map_of_affine_variable:
  assumes "distinct vars" "length cs = length vars" "j < length vars"
  shows "map_of (affine_polynomial vars cs c0) [(vars ! j, 1)]
         = (if cs ! j \<noteq> 0 then Some (EConstant (cs ! j)) else None)"
proof -
  have d: "distinct (map fst (zip vars cs))" using assms by simp
  have m: "map_of (zip vars cs) (vars ! j) = Some (cs ! j)"
    using assms by (simp add: map_of_zip_nth)
  show ?thesis
    unfolding affine_polynomial_def using map_of_linear_terms[OF d, of "vars ! j"] m
    by (auto simp: map_add_def split: option.splits)
qed

lemma distinct_affine_polynomial:
  assumes "distinct vars"
  shows "distinct (map fst (affine_polynomial vars cs c0))"
proof -
  have inj: "inj (\<lambda>v::Variable. [(v, 1::nat)])" by (simp add: inj_def)
  have "distinct (map fst (filter (\<lambda>t. snd t \<noteq> 0) (zip vars cs)))"
    using assms by (simp add: distinct_map_filter distinct_zipI1 map_fst_zip_take)
  then have "distinct (map (\<lambda>v. [(v, 1::nat)]) (map fst (filter (\<lambda>t. snd t \<noteq> 0) (zip vars cs))))"
    using inj by (auto simp: distinct_map inj_on_def)
  then have "distinct (map fst (map (\<lambda>t. ([(fst t, 1::nat)], EConstant (snd t)))
                (filter (\<lambda>t. snd t \<noteq> 0) (zip vars cs))))"
    by (simp add: comp_def)
  then show ?thesis by (auto simp: affine_polynomial_def)
qed

lemma map_of_same_set:
  assumes "distinct (map fst P)" "distinct (map fst P')" "set P = set P'"
  shows "map_of P = map_of P'"
proof
  fix k
  show "map_of P k = map_of P' k"
  proof (cases "map_of P k")
    case None
    then have "k \<notin> fst ` set P" by (simp add: map_of_eq_None_iff)
    then have "k \<notin> fst ` set P'" using assms(3) by simp
    then have "map_of P' k = None" by (simp add: map_of_eq_None_iff)
    with None show ?thesis by simp
  next
    case (Some v)
    then have "(k, v) \<in> set P" using assms(1) by simp
    then have "(k, v) \<in> set P'" using assms(3) by simp
    then have "map_of P' k = Some v" using assms(2) by simp
    with Some show ?thesis by simp
  qed
qed

lemma fill_row_nth:
  assumes "\<And>j. j < length vs \<Longrightarrow> FindCoefficientAndFill P [(vs ! j, 1)] = Inr (ks ! j)"
    and "length ks = length vs"
  shows "fill_row P vs = Inr ks"
  using assms
proof (induction vs arbitrary: ks)
  case Nil
  then show ?case by simp
next
  case (Cons v vs)
  from Cons.prems(2) obtain k ks' where ks: "ks = k # ks'" by (cases ks) auto
  from Cons.prems(1)[of 0] have h: "FindCoefficientAndFill P [(v, 1)] = Inr k" unfolding ks by simp
  have "fill_row P vs = Inr ks'"
  proof (rule Cons.IH)
    fix j assume "j < length vs"
    then show "FindCoefficientAndFill P [(vs ! j, 1)] = Inr (ks' ! j)"
      using Cons.prems(1)[of "Suc j"] unfolding ks by simp
  next
    show "length ks' = length vs" using Cons.prems(2) unfolding ks by simp
  qed
  with h show ?case unfolding ks by simp
qed

lemma linear_row_affine:
  assumes "distinct vars" "affine_row Poly vars (e, cs, c0)"
  shows "linear_row Poly vars e
         = (if c0 \<noteq> 0 then Inl (UnexpectedConstantTerm e (EConstant c0))
            else Inr (map Finite cs))"
proof -
  let ?P = "Poly e (Variables_of vars)"
  from assms(2) have l: "length cs = length vars" and p: "is_polynomial e"
    and dP: "distinct (map fst ?P)" and sP: "set ?P = set (affine_polynomial vars cs c0)"
    unfolding affine_row_def by simp_all
  have mp: "map_of ?P = map_of (affine_polynomial vars cs c0)"
    by (rule map_of_same_set[OF dP distinct_affine_polynomial[OF assms(1)] sP])
  have t: "\<not> Polynomial_TotalDegree ?P > 1"
    using TotalDegree_affine[OF sP] by simp
  show ?thesis
  proof (cases "c0 = 0")
    case True
    have "fill_row ?P vars = Inr (map Finite cs)"
    proof (rule fill_row_nth)
      fix j assume j: "j < length vars"
      show "FindCoefficientAndFill ?P [(vars ! j, 1)] = Inr (map Finite cs ! j)"
        unfolding FindCoefficientAndFill_def mp map_of_affine_variable[OF assms(1) l j]
        using j l by (simp add: is_constant_def get_constant_value_def)
    next
      show "length (map Finite cs) = length vars" using l by simp
    qed
    with True p t show ?thesis
      unfolding linear_row_def Let_def mp by (simp add: map_of_affine_constant)
  next
    case False
    with p t show ?thesis
      unfolding linear_row_def Let_def mp by (simp add: map_of_affine_constant)
  qed
qed

lemma linear_rows_affine:
  assumes "distinct vars" "list_all (affine_row Poly vars) rows"
  shows "linear_rows Poly vars (map fst rows)
         = (case find (\<lambda>r. snd (snd r) \<noteq> 0) rows of
              None \<Rightarrow> Inr (map (\<lambda>r. map Finite (fst (snd r))) rows)
            | Some r \<Rightarrow> Inl (UnexpectedConstantTerm (fst r) (EConstant (snd (snd r)))))"
  using assms(2)
proof (induction rows)
  case Nil
  then show ?case by simp
next
  case (Cons r rows)
  obtain e cs c0 where r: "r = (e, cs, c0)" by (cases r)
  from Cons.prems have a: "affine_row Poly vars (e, cs, c0)"
    and rest: "list_all (affine_row Poly vars) rows" unfolding r by simp_all
  from Cons.IH[OF rest] linear_row_affine[OF assms(1) a] show ?case
    unfolding r by (simp split: option.splits)
qed

lemma linear_rows_append:
  "linear_rows Poly vars (es @ [e])
   = (case linear_rows Poly vars es of
        Inl err \<Rightarrow> Inl err
      | Inr M \<Rightarrow> (case linear_row Poly vars e of
                     Inl err \<Rightarrow> Inl err | Inr row \<Rightarrow> Inr (M @ [row])))"
  by (induction es) (auto split: sum.splits)

text \<open>
  The expressions \<open>x\<^sup>2 + 1\<close>, and \<open>2 x + 5 y\<close> and \<open>x + 7\<close>, with their coefficient maps.
\<close>

definition square_plus_one :: Expression where
  "square_plus_one = EAdd 1 [(EPow (EVar (Variable 2)) (EConstant 2), 1)]"

definition square_plus_one_Poly :: "Expression \<Rightarrow> Variables \<Rightarrow> Polynomial" where
  "square_plus_one_Poly e indeterminates = [([], EConstant 1), ([(Variable 2, 2)], EConstant 1)]"

definition example_Poly :: "Expression \<Rightarrow> Variables \<Rightarrow> Polynomial" where
  "example_Poly e indeterminates =
     (if e = EAdd 0 [(EVar (Variable 2), 2), (EVar (Variable 3), 5)]
      then [([(Variable 2, 1)], EConstant 2), ([(Variable 3, 1)], EConstant 5)]
      else [([(Variable 2, 1)], EConstant 1), ([], EConstant 7)])"

text \<open>
  C6 (amended).  For expressions that are all affine in the given, distinct, variables,
  \<open>e\<^sub>i = \<Sum>\<^sub>j c\<^sub>i\<^sub>j x\<^sub>j + c\<^sub>i\<^sub>0\<close> with numeric coefficients, \<^verbatim>\<open>DecomposeLinearExpressions\<close>
  returns the matrix of the coefficients \<open>c\<^sub>i\<^sub>j\<close> exactly (0.0 for a missing monomial) if every
  \<open>c\<^sub>i\<^sub>0\<close> is zero, and otherwise fails with \<^verbatim>\<open>UnexpectedConstantTerm\<close>, for the first
  expression whose constant term is not zero.  An expression that is not a polynomial, or
  whose total degree in the variables is above 1, fails with \<^verbatim>\<open>InputNotPolynomial\<close> or
  \<^verbatim>\<open>InputNotAffine\<close> when the affine expressions before it have no constant term, whether
  or not it has a constant term itself.
\<close>

theorem linear_decomposition:
  assumes "distinct vars" "list_all (affine_row Poly vars) rows"
  shows "DecomposeLinearExpressions Poly (map fst rows) vars (length rows) (length vars)
         = (case find (\<lambda>r. snd (snd r) \<noteq> 0) rows of
              None \<Rightarrow> Inr (map (\<lambda>r. map Finite (fst (snd r))) rows)
            | Some r \<Rightarrow> Inl (UnexpectedConstantTerm (fst r) (EConstant (snd (snd r))))) \<and>
         (\<forall>e. \<not> is_polynomial e \<or>
                1 < Polynomial_TotalDegree (Poly e (Variables_of vars)) \<longrightarrow>
            DecomposeLinearExpressions Poly (map fst rows @ [e]) vars
                (Suc (length rows)) (length vars)
            = (case find (\<lambda>r. snd (snd r) \<noteq> 0) rows of
                 None \<Rightarrow> if \<not> is_polynomial e then Inl (InputNotPolynomial e)
                         else Inl (InputNotAffine e)
               | Some r \<Rightarrow> Inl (UnexpectedConstantTerm (fst r) (EConstant (snd (snd r))))))"
proof -
  note A = linear_rows_affine[OF assms]
  have 1: "DecomposeLinearExpressions Poly (map fst rows) vars (length rows) (length vars)
         = (case find (\<lambda>r. snd (snd r) \<noteq> 0) rows of
              None \<Rightarrow> Inr (map (\<lambda>r. map Finite (fst (snd r))) rows)
            | Some r \<Rightarrow> Inl (UnexpectedConstantTerm (fst r) (EConstant (snd (snd r)))))"
    using A by (simp add: DecomposeLinearExpressions_def)
  have 2: "DecomposeLinearExpressions Poly (map fst rows @ [e]) vars
                (Suc (length rows)) (length vars)
            = (case find (\<lambda>r. snd (snd r) \<noteq> 0) rows of
                 None \<Rightarrow> if \<not> is_polynomial e then Inl (InputNotPolynomial e)
                         else Inl (InputNotAffine e)
               | Some r \<Rightarrow> Inl (UnexpectedConstantTerm (fst r) (EConstant (snd (snd r)))))"
    if "\<not> is_polynomial e \<or> 1 < Polynomial_TotalDegree (Poly e (Variables_of vars))" for e
  proof -
    have "linear_row Poly vars e
          = (if \<not> is_polynomial e then Inl (InputNotPolynomial e) else Inl (InputNotAffine e))"
      using that by (auto simp: linear_row_def Let_def)
    then show ?thesis
      unfolding DecomposeLinearExpressions_def linear_rows_append A
      by (simp split: option.splits)
  qed
  from 1 2 show ?thesis by blast
qed

theorem linear_decomposition_witness:
  "DecomposeLinearExpressions example_Poly
     [EAdd 0 [(EVar (Variable 2), 2), (EVar (Variable 3), 5)]]
     [Variable 2, Variable 3] 1 2 = Inr [[Finite 2, Finite 5]] \<and>
   DecomposeLinearExpressions example_Poly
     [EAdd 0 [(EVar (Variable 2), 2), (EVar (Variable 3), 5)], EAdd 7 [(EVar (Variable 2), 1)]]
     [Variable 2, Variable 3] 2 2
   = Inl (UnexpectedConstantTerm (EAdd 7 [(EVar (Variable 2), 1)]) (EConstant 7))"
proof -
  let ?e1 = "EAdd 0 [(EVar (Variable 2), 2), (EVar (Variable 3), 5)]"
  let ?e2 = "EAdd 7 [(EVar (Variable 2), 1)]"
  let ?vars = "[Variable 2, Variable 3]"
  have d: "distinct ?vars" by simp
  have p1: "affine_polynomial ?vars [2, 5] 0
              = [([(Variable 2, 1)], EConstant 2), ([(Variable 3, 1)], EConstant 5)]"
    by (simp add: affine_polynomial_def)
  have p2: "affine_polynomial ?vars [1, 0] 7
              = [([], EConstant 7), ([(Variable 2, 1)], EConstant 1)]"
    by (simp add: affine_polynomial_def)
  have r1: "affine_row example_Poly ?vars (?e1, [2, 5], 0)"
    by (simp add: affine_row_def p1 example_Poly_def)
  have r2: "affine_row example_Poly ?vars (?e2, [1, 0], 7)"
    by (auto simp: affine_row_def p2 example_Poly_def)
  have a1: "list_all (affine_row example_Poly ?vars) [(?e1, [2, 5], 0)]"
    using r1 by simp
  have a2: "list_all (affine_row example_Poly ?vars) [(?e1, [2, 5], 0), (?e2, [1, 0], 7)]"
    using r1 r2 by simp
  from linear_decomposition[OF d a1, THEN conjunct1]
    linear_decomposition[OF d a2, THEN conjunct1]
  show ?thesis by (simp add: numeral_2_eq_2)
qed

text \<open>
  C6 as stated: the failure is \<^verbatim>\<open>UnexpectedConstantTerm\<close> whenever an input has a nonzero
  constant term.  \<open>x\<^sup>2 + 1\<close> has the constant term 1; the degree is tested first (line 133)
  and the failure is \<^verbatim>\<open>InputNotAffine\<close>.
\<close>

theorem linear_decomposition_degree_first:
  "DecomposeLinearExpressions square_plus_one_Poly [square_plus_one] [Variable 2] 1 1
   = Inl (InputNotAffine square_plus_one)"
  by (simp add: DecomposeLinearExpressions_def linear_row_def square_plus_one_def
      square_plus_one_Poly_def Polynomial_TotalDegree_def total_degree_def
      is_non_negative_integer_def is_constant_def get_constant_value_def)

section \<open>L2-norm recognizer\<close>










subsection \<open>The quadratic decomposition of the operand returns\<close>



















end
